theory Spec2Isabelle
  imports Main "HOL-Library.Sublist" "HOL-Library.Multiset"
begin

chapter \<open>The model\<close>

section \<open>Errors and their aggregation\<close>

text \<open>
  A Go \<open>error\<close> value is either nil (\<open>None\<close>) or a non-nil error. Two shapes of
  non-nil error matter to the package: a plain error carrying a message (what
  \<open>errors.New\<close> and \<open>ctx.Err()\<close> produce) and the aggregate of
  \<open>go.uber.org/multierr\<close>, which holds a list of errors.
\<close>

datatype error = errorString string | multiError "error list"

text \<open>
  Modelled from the spec: the error aggregator (section 4.4) is the imported library
  \<open>go.uber.org/multierr\<close>, whose source is not among the repository's files.
  \<open>Errors\<close>, \<open>fromSlice\<close>, \<open>multierr_Combine\<close>, \<open>multierr_Append\<close> and
  \<open>Error\<close> follow that library: nil arguments are dropped, a single remaining error
  is returned as it is, and two or more are flattened (one level) into one aggregate,
  in the order given, whose text joins the constituents' texts with \<open>; \<close>.
\<close>

fun Errors :: "error \<Rightarrow> error list" where
  "Errors (multiError es) = es"
| "Errors (errorString s) = [errorString s]"

fun is_multiError :: "error \<Rightarrow> bool" where
  "is_multiError (multiError es) = True"
| "is_multiError (errorString s) = False"

definition fromSlice :: "error option list \<Rightarrow> error option" where
  "fromSlice errors =
     (case errors of
        [] \<Rightarrow> None
      | [e] \<Rightarrow> e
      | _ \<Rightarrow>
        (case List.map_filter id errors of
           [] \<Rightarrow> None
         | [e] \<Rightarrow> Some e
         | nonNilErrs \<Rightarrow> Some (multiError (concat (map Errors nonNilErrs)))))"

definition multierr_Combine :: "error option list \<Rightarrow> error option" where
  "multierr_Combine errors = fromSlice errors"

definition multierr_Append :: "error option \<Rightarrow> error option \<Rightarrow> error option" where
  "multierr_Append left right =
     (case left of
        None \<Rightarrow> right
      | Some l \<Rightarrow>
        (case right of
           None \<Rightarrow> left
         | Some r \<Rightarrow>
             if \<not> is_multiError r then
               (if is_multiError l then Some (multiError (Errors l @ [r]))
                else Some (multiError [l, r]))
             else fromSlice [left, right]))"

fun join :: "string \<Rightarrow> string list \<Rightarrow> string" where
  "join sep [] = []"
| "join sep [x] = x"
| "join sep (x # y # ys) = x @ sep @ join sep (y # ys)"

fun Error :: "error \<Rightarrow> string" where
  "Error (errorString s) = s"
| "Error (multiError es) = join ''; '' (map Error es)"

text \<open>The constituent failures of an outcome: none for nil.\<close>

fun constituents :: "error option \<Rightarrow> error list" where
  "constituents None = []"
| "constituents (Some e) = Errors e"

section \<open>Closers and the cancellation signal\<close>

text \<open>
  A \<open>Closer\<close> is opaque to the package: all it sees is that \<open>Close()\<close> returns, after
  some time, an error or nil. The tests' \<open>groupCloser\<close> has exactly these fields
  (\<open>delay\<close>, \<open>err\<close>); \<open>ident\<close> stands for the pointer identity of the resource.
  The delay is any natural number, however large; a \<open>Close()\<close> that never returns at
  all is outside the model.
\<close>

record closer =
  ident :: nat
  delay :: nat
  err :: "error option"

text \<open>
  What \<open>CloseContext\<close> observes of its \<open>context.Context\<close>: whether and when
  \<open>Done()\<close> is closed, counted from the moment of the call (\<open>None\<close>: never, as for
  \<open>context.Background()\<close>; \<open>Some 0\<close>: already closed when the call begins), and
  the error \<open>Err()\<close> reports from then on.
\<close>

datatype cause = Canceled | DeadlineExceeded

record signal =
  fires_after :: "nat option"
  cause :: cause

definition ctx_Err :: "signal \<Rightarrow> error" where
  "ctx_Err ctx =
     (case cause ctx of
        Canceled \<Rightarrow> errorString ''context canceled''
      | DeadlineExceeded \<Rightarrow> errorString ''context deadline exceeded'')"

definition Background :: signal where
  "Background = \<lparr>fires_after = None, cause = Canceled\<rparr>"

text \<open>
  The \<open>select\<close> statement of the strategies waits on \<open>ctx.Done()\<close> and on the
  channel that the dispatched goroutine closes when \<open>Close()\<close> has returned. It is
  entered at time \<open>now\<close>, the moment of dispatch; the channel becomes ready at
  \<open>fin\<close>. The case that becomes ready first runs. When both are ready at the same moment (in particular when the
  signal has already fired and the closer has already returned when the statement is
  reached) Go picks one of the ready cases at random: that choice is the parameter
  \<open>pick\<close>. The result is the case taken and the time at which it is taken.
\<close>

datatype branch = ctxDone | nextClosed

definition select :: "branch \<Rightarrow> signal \<Rightarrow> nat \<Rightarrow> nat \<Rightarrow> branch \<times> nat" where
  "select pick ctx now fin =
     (case fires_after ctx of
        None \<Rightarrow> (nextClosed, fin)
      | Some d \<Rightarrow>
          let ready = max d now in
          if ready < fin then (ctxDone, ready)
          else if fin < ready then (nextClosed, fin)
          else (pick, ready))"

text \<open>\<open>callClose\<close>: the closer's failure, if any, is appended to the accumulator.\<close>

definition callClose :: "closer \<Rightarrow> error option \<Rightarrow> error option" where
  "callClose c errs = (case err c of None \<Rightarrow> errs | Some e \<Rightarrow> multierr_Append errs (Some e))"

text \<open>
  The local state of a walk: the accumulated error \<open>errs\<close>, the time elapsed since
  the call began, and the log of the closers whose \<open>Close()\<close> has been dispatched, in
  the order of dispatch. What a close call yields: the returned error, that log, and
  the time at which the call returns.
\<close>

record walk =
  errs :: "error option"
  clock :: nat
  issued :: "closer list"

record outcome =
  result :: "error option"
  closed :: "closer list"
  elapsed :: nat

definition start :: walk where
  "start = \<lparr>errs = None, clock = 0, issued = []\<rparr>"

section \<open>The queue strategy\<close>

record Fifo =
  queue :: "closer list"

definition Fifo_new :: Fifo where
  "Fifo_new = \<lparr>queue = []\<rparr>"

definition Fifo_Append :: "Fifo \<Rightarrow> closer \<Rightarrow> Fifo" where
  "Fifo_Append f c = f\<lparr>queue := queue f @ [c]\<rparr>"

text \<open>
  The loop of \<open>Fifo.CloseContext\<close> over the rest of the queue; \<open>k\<close> counts the
  iterations. Each iteration dispatches the goroutine that runs \<open>callClose\<close> and
  closes \<open>next\<close>, then selects. On \<open>ctx.Done()\<close> it returns
  \<open>multierr.Append(errs, ctx.Err())\<close>, evaluated at the moment the case is taken:
  \<open>errs\<close> holds the dispatched closer's failure only if that closer had returned by
  then.
\<close>

fun Fifo_loop :: "(nat \<Rightarrow> branch) \<Rightarrow> signal \<Rightarrow> nat \<Rightarrow> closer list \<Rightarrow> walk \<Rightarrow> outcome" where
  "Fifo_loop pick ctx k [] w = \<lparr>result = errs w, closed = issued w, elapsed = clock w\<rparr>"
| "Fifo_loop pick ctx k (c # cs) w =
     (let fin = clock w + delay c;
          dispatched = issued w @ [c]
      in case select (pick k) ctx (clock w) fin of
           (ctxDone, t) \<Rightarrow>
             \<lparr>result = multierr_Append (if fin \<le> t then callClose c (errs w) else errs w)
                         (Some (ctx_Err ctx)),
              closed = dispatched, elapsed = t\<rparr>
         | (nextClosed, t) \<Rightarrow>
             Fifo_loop pick ctx (Suc k) cs
               \<lparr>errs = callClose c (errs w), clock = t, issued = dispatched\<rparr>)"

definition Fifo_CloseContext :: "(nat \<Rightarrow> branch) \<Rightarrow> signal \<Rightarrow> Fifo \<Rightarrow> outcome" where
  "Fifo_CloseContext pick ctx f = Fifo_loop pick ctx 0 (queue f) start"

definition Fifo_Close :: "(nat \<Rightarrow> branch) \<Rightarrow> Fifo \<Rightarrow> outcome" where
  "Fifo_Close pick f = Fifo_CloseContext pick Background f"

section \<open>The stack strategy\<close>

record Lifo =
  stack :: "closer list"

definition Lifo_new :: Lifo where
  "Lifo_new = \<lparr>stack = []\<rparr>"

definition Lifo_Append :: "Lifo \<Rightarrow> closer \<Rightarrow> Lifo" where
  "Lifo_Append l c = l\<lparr>stack := stack l @ [c]\<rparr>"

text \<open>
  The loop of \<open>Lifo.CloseContext\<close>: \<open>for i := len(l.stack) - 1; i >= 0; i--\<close>. The
  counter of the model is \<open>i + 1\<close> (a natural number cannot reach \<open>-1\<close>), so the
  iteration at \<open>Suc i\<close> reads \<open>l.stack[i]\<close>, which is in range whenever the loop is
  entered at \<open>length (stack l)\<close>. The body is that of the queue's loop.
\<close>

fun Lifo_loop :: "(nat \<Rightarrow> branch) \<Rightarrow> signal \<Rightarrow> closer list \<Rightarrow> nat \<Rightarrow> walk \<Rightarrow> outcome" where
  "Lifo_loop pick ctx st 0 w = \<lparr>result = errs w, closed = issued w, elapsed = clock w\<rparr>"
| "Lifo_loop pick ctx st (Suc i) w =
     (let c = st ! i;
          fin = clock w + delay c;
          dispatched = issued w @ [c]
      in case select (pick i) ctx (clock w) fin of
           (ctxDone, t) \<Rightarrow>
             \<lparr>result = multierr_Append (if fin \<le> t then callClose c (errs w) else errs w)
                         (Some (ctx_Err ctx)),
              closed = dispatched, elapsed = t\<rparr>
         | (nextClosed, t) \<Rightarrow>
             Lifo_loop pick ctx st i
               \<lparr>errs = callClose c (errs w), clock = t, issued = dispatched\<rparr>)"

definition Lifo_CloseContext :: "(nat \<Rightarrow> branch) \<Rightarrow> signal \<Rightarrow> Lifo \<Rightarrow> outcome" where
  "Lifo_CloseContext pick ctx l = Lifo_loop pick ctx (stack l) (length (stack l)) start"

definition Lifo_Close :: "(nat \<Rightarrow> branch) \<Rightarrow> Lifo \<Rightarrow> outcome" where
  "Lifo_Close pick l = Lifo_CloseContext pick Background l"

section \<open>The concurrent group strategy\<close>

record Group =
  closers :: "closer list"

definition Group_new :: Group where
  "Group_new = \<lparr>closers = []\<rparr>"

definition Group_Append :: "Group \<Rightarrow> closer \<Rightarrow> Group" where
  "Group_Append g c = g\<lparr>closers := closers g @ [c]\<rparr>"

text \<open>
  \<open>Group.CloseContext\<close> starts one unit per entry when the call begins. The goroutines
  run in no fixed order: the scheduler's \<open>rank\<close> orders the events that fall at the
  same moment, where event \<open>2 * i\<close> is the dispatch of the close of entry \<open>i\<close> and event
  \<open>2 * i + 1\<close> the append of its failure. The inner goroutine of a unit returns from
  \<open>Close()\<close> at \<open>delay c\<close>, appends its failure to \<open>errs\<close> and then closes \<open>done\<close>.
  The outer goroutine's \<open>select\<close> takes the case \<open>resolves\<close> at the time \<open>leg\<close> and
  calls \<open>wg.Done()\<close>. \<open>wg.Wait()\<close> returns when the last leg has resolved, and \<open>errs\<close>
  is read then.

  A failure is in \<open>errs\<close> at that moment if its unit's select took the \<open>done\<close> case:
  the append comes before \<open>close(done)\<close>, which comes before the receive. A unit whose
  select took the cancellation case counts as not recorded. When the closer returns at
  the very moment the signal fires, or has no delay under a signal that fired before
  the call, its inner goroutine may or may not have got that far when \<open>errs\<close> is read,
  and the scheduler's \<open>pick\<close> decides. (A failure appended in time although the select
  took the cancellation case gives the outcome of the \<open>done\<close> case.) Recorded failures
  stand in \<open>errs\<close> in the order in which the units returned.
\<close>

definition resolves :: "(nat \<Rightarrow> branch) \<Rightarrow> signal \<Rightarrow> nat \<times> closer \<Rightarrow> branch" where
  "resolves pick ctx u = fst (select (pick (fst u)) ctx 0 (delay (snd u)))"

definition leg :: "(nat \<Rightarrow> branch) \<Rightarrow> signal \<Rightarrow> nat \<times> closer \<Rightarrow> nat" where
  "leg pick ctx u = snd (select (pick (fst u)) ctx 0 (delay (snd u)))"

definition Group_CloseContext ::
  "(nat \<Rightarrow> branch) \<Rightarrow> (nat \<Rightarrow> nat) \<Rightarrow> signal \<Rightarrow> Group \<Rightarrow> outcome" where
  "Group_CloseContext pick rank ctx g =
     (let units = enumerate 0 (closers g);
          started = sort_key (\<lambda>u. rank (2 * fst u)) units;
          wait = Max (set (0 # map (leg pick ctx) units));
          recorded = filter (\<lambda>u. resolves pick ctx u = nextClosed) units;
          in_order = sort_key (\<lambda>u. delay (snd u)) (sort_key (\<lambda>u. rank (2 * fst u + 1)) recorded);
          errs = List.map_filter (\<lambda>u. err (snd u)) in_order
      in \<lparr>result = multierr_Combine (map Some errs), closed = map snd started, elapsed = wait\<rparr>)"

definition Group_Close :: "(nat \<Rightarrow> branch) \<Rightarrow> (nat \<Rightarrow> nat) \<Rightarrow> Group \<Rightarrow> outcome" where
  "Group_Close pick rank g = Group_CloseContext pick rank Background g"

section \<open>The process-wide default registry\<close>

text \<open>
  The interface \<open>Closure\<close> with its three implementations, and the scheduler's choices
  that one close call consumes.
\<close>

datatype closure = FifoC Fifo | LifoC Lifo | GroupC Group

record sched =
  picks :: "nat \<Rightarrow> branch"
  ranks :: "nat \<Rightarrow> nat"

fun closure_Append :: "closure \<Rightarrow> closer \<Rightarrow> closure" where
  "closure_Append (FifoC f) c = FifoC (Fifo_Append f c)"
| "closure_Append (LifoC l) c = LifoC (Lifo_Append l c)"
| "closure_Append (GroupC g) c = GroupC (Group_Append g c)"

fun closure_CloseContext :: "sched \<Rightarrow> signal \<Rightarrow> closure \<Rightarrow> outcome" where
  "closure_CloseContext s ctx (FifoC f) = Fifo_CloseContext (picks s) ctx f"
| "closure_CloseContext s ctx (LifoC l) = Lifo_CloseContext (picks s) ctx l"
| "closure_CloseContext s ctx (GroupC g) = Group_CloseContext (picks s) (ranks s) ctx g"

fun registered :: "closure \<Rightarrow> closer list" where
  "registered (FifoC f) = queue f"
| "registered (LifoC l) = stack l"
| "registered (GroupC g) = closers g"

text \<open>
  The package variables \<open>pkgClosure\<close> and \<open>once\<close> (every package function runs under
  the mutex \<open>mu\<close>, so calls take effect one after the other). Two counters record what
  the claims are about: how often the strategy's \<open>CloseContext\<close> ran, and the closes
  dispatched on resources. The repository also holds earlier versions of this file; the
  one modelled is the latest, with the \<open>sync.Once\<close> guard and \<open>Close\<close> defined
  through \<open>CloseContext\<close>.
\<close>

record package =
  pkgClosure :: closure
  once :: bool
  strategy_closes :: nat
  resource_closes :: "closer list"

definition init :: package where
  "init = \<lparr>pkgClosure = LifoC Lifo_new, once = False, strategy_closes = 0, resource_closes = []\<rparr>"

definition SetPackageClosure :: "closure \<Rightarrow> package \<Rightarrow> package" where
  "SetPackageClosure c p = p\<lparr>pkgClosure := c\<rparr>"

definition Append :: "closer \<Rightarrow> package \<Rightarrow> package" where
  "Append c p = p\<lparr>pkgClosure := closure_Append (pkgClosure p) c\<rparr>"

definition CloseContext :: "sched \<Rightarrow> signal \<Rightarrow> package \<Rightarrow> error option \<times> package" where
  "CloseContext s ctx p =
     (if once p then (None, p)
      else let out = closure_CloseContext s ctx (pkgClosure p)
           in (result out,
               p\<lparr>once := True, strategy_closes := Suc (strategy_closes p),
                 resource_closes := resource_closes p @ closed out\<rparr>))"

definition Close :: "sched \<Rightarrow> package \<Rightarrow> error option \<times> package" where
  "Close s p = CloseContext s Background p"

text \<open>A sequence of calls to the package's close functions, and what each returns.\<close>

datatype call = CallClose sched | CallCloseContext sched signal

fun perform :: "call \<Rightarrow> package \<Rightarrow> error option \<times> package" where
  "perform (CallClose s) p = Close s p"
| "perform (CallCloseContext s ctx) p = CloseContext s ctx p"

fun run :: "call list \<Rightarrow> package \<Rightarrow> error option list \<times> package" where
  "run [] p = ([], p)"
| "run (c # cs) p =
     (let (r, p') = perform c p;
          (rs, p'') = run cs p'
      in (r # rs, p''))"

section \<open>The context association\<close>

text \<open>
  Modelled from the spec: section 4.5 relies on the standard library's
  \<open>context.WithValue\<close> and \<open>Value\<close>, whose source is not among the repository's
  files. A context is an object on the heap (an address is an index into the list of
  allocated nodes; an address outside the heap stands for a nil context). A derived
  context points to its parent, which was allocated before it. \<open>WithValue\<close>
  allocates a new node and panics (\<open>None\<close>) on a nil parent; \<open>Value\<close> walks the
  parent pointers to the first node that holds the key. \<open>cancelCtx\<close> stands for the
  contexts that \<open>WithCancel\<close>, \<open>WithDeadline\<close> and \<open>WithTimeout\<close> derive.
\<close>

type_synonym addr = nat

datatype key = ctxKey | otherKey nat

datatype any = nilValue | closureValue nat | otherValue nat

datatype node = emptyCtx | valueCtx addr key any | cancelCtx addr

type_synonym heap = "node list"

function Value :: "heap \<Rightarrow> addr \<Rightarrow> key \<Rightarrow> any" where
  "Value h a k =
     (if a < length h then
        (case h ! a of
           emptyCtx \<Rightarrow> nilValue
         | valueCtx p k' v \<Rightarrow> if k' = k then v else if p < a then Value h p k else nilValue
         | cancelCtx p \<Rightarrow> if p < a then Value h p k else nilValue)
      else nilValue)"
  by pat_completeness auto
termination
  by (relation "measure (\<lambda>(h, a, k). a)") auto

declare Value.simps [simp del]

definition WithValue :: "heap \<Rightarrow> addr \<Rightarrow> key \<Rightarrow> any \<Rightarrow> (heap \<times> addr) option" where
  "WithValue h parent k v =
     (if parent < length h then Some (h @ [valueCtx parent k v], length h) else None)"

definition WithCancel :: "heap \<Rightarrow> addr \<Rightarrow> (heap \<times> addr) option" where
  "WithCancel h parent =
     (if parent < length h then Some (h @ [cancelCtx parent], length h) else None)"

text \<open>
  \<open>ClosureToContext\<close> and \<open>ClosureFromContext\<close>. A \<open>Closure\<close> is an interface value:
  \<open>None\<close> is the nil interface, \<open>Some c\<close> the strategy instance at address \<open>c\<close>. The
  type assertion \<open>.(Closure)\<close> fails on nil and on a value that is no \<open>Closure\<close>.
\<close>

definition ClosureToContext :: "heap \<Rightarrow> addr \<Rightarrow> nat option \<Rightarrow> (heap \<times> addr) option" where
  "ClosureToContext h ctx cl =
     WithValue h ctx ctxKey (case cl of None \<Rightarrow> nilValue | Some c \<Rightarrow> closureValue c)"

definition ClosureFromContext :: "heap \<Rightarrow> addr \<Rightarrow> (nat option \<times> bool) option" where
  "ClosureFromContext h ctx =
     (if ctx < length h then
        Some (case Value h ctx ctxKey of
                closureValue c \<Rightarrow> (Some c, True)
              | _ \<Rightarrow> (None, False))
      else None)"

chapter \<open>Notions used in the statements\<close>

text \<open>The strategy to which the entries \<open>es\<close> were appended in this order.\<close>

definition Fifo_of :: "closer list \<Rightarrow> Fifo" where
  "Fifo_of es = foldl Fifo_Append Fifo_new es"

definition Lifo_of :: "closer list \<Rightarrow> Lifo" where
  "Lifo_of es = foldl Lifo_Append Lifo_new es"

definition Group_of :: "closer list \<Rightarrow> Group" where
  "Group_of es = foldl Group_Append Group_new es"

text \<open>The signal stays silent up to and including time \<open>t\<close>.\<close>

definition quiet :: "signal \<Rightarrow> nat \<Rightarrow> bool" where
  "quiet ctx t = (case fires_after ctx of None \<Rightarrow> True | Some d \<Rightarrow> t < d)"

text \<open>
  The signal fires while a sequential walk over \<open>xs\<close> waits on its entry number \<open>k\<close>
  (counted from 0): the entries before have returned, the entry itself has been
  dispatched and has not returned yet.
\<close>

definition fires_during :: "signal \<Rightarrow> closer list \<Rightarrow> nat \<Rightarrow> bool" where
  "fires_during ctx xs k =
     (case fires_after ctx of
        None \<Rightarrow> False
      | Some d \<Rightarrow> k < length xs \<and> sum_list (map delay (take k xs)) < d
                 \<and> d < sum_list (map delay (take (Suc k) xs)))"

text \<open>
  The accumulator after the given closers have all returned, in that order, and the
  failures they return, in that order.
\<close>

definition collect :: "error option \<Rightarrow> closer list \<Rightarrow> error option" where
  "collect e cs = foldl (\<lambda>e c. callClose c e) e cs"

definition failures :: "closer list \<Rightarrow> error list" where
  "failures cs = concat (map (\<lambda>c. constituents (err c)) cs)"

text \<open>
  A walk over \<open>xs\<close> was cut at entry \<open>k\<close>: the closes dispatched are those of the
  entries up to \<open>k\<close>, the call returns at the moment the signal fires, and the result is
  the aggregate of the failures of the entries before \<open>k\<close> with \<open>ctx.Err()\<close>
  appended as the last constituent.
\<close>

definition walk_cut :: "signal \<Rightarrow> closer list \<Rightarrow> nat \<Rightarrow> outcome \<Rightarrow> bool" where
  "walk_cut ctx xs k out =
     (closed out = take (Suc k) xs
      \<and> fires_after ctx = Some (elapsed out)
      \<and> result out = multierr_Append (collect None (take k xs)) (Some (ctx_Err ctx))
      \<and> constituents (result out) = failures (take k xs) @ [ctx_Err ctx])"

text \<open>
  An outcome \<open>r\<close> is complete for the entries \<open>es\<close>: it is nil exactly when every entry
  succeeded, and the text of every entry's failure occurs in its text.
\<close>

definition complete :: "closer list \<Rightarrow> error option \<Rightarrow> bool" where
  "complete es r =
     ((r = None \<longleftrightarrow> (\<forall>c \<in> set es. err c = None)) \<and>
      (\<forall>c \<in> set es. \<forall>e. err c = Some e \<longrightarrow> (\<exists>x. r = Some x \<and> sublist (Error e) (Error x))))"

text \<open>The default registry after \<open>SetPackageClosure cl\<close> and the registration of \<open>es\<close>.\<close>

definition registry :: "closure \<Rightarrow> closer list \<Rightarrow> package" where
  "registry cl es = foldl (\<lambda>p c. Append c p) (SetPackageClosure cl init) es"

text \<open>
  The walk of a strategy reaches its last entry under the signal \<open>ctx\<close>: the strategy
  holds at most one entry (the first entry's close is dispatched before the signal is
  looked at), or the signal is still silent at the moment the walk dispatches the close
  of its last entry, which is when the closes before it have returned. The queue's
  last entry is the one registered last, the stack's the one registered first. A group
  dispatches every entry whatever the signal does.
\<close>

fun undisturbed :: "signal \<Rightarrow> closure \<Rightarrow> bool" where
  "undisturbed ctx (FifoC f) =
     (length (queue f) \<le> 1 \<or> quiet ctx (sum_list (map delay (butlast (queue f)))))"
| "undisturbed ctx (LifoC l) =
     (length (stack l) \<le> 1 \<or> quiet ctx (sum_list (map delay (tl (stack l)))))"
| "undisturbed ctx (GroupC g) = True"

fun call_sched :: "call \<Rightarrow> sched" where
  "call_sched (CallClose s) = s"
| "call_sched (CallCloseContext s ctx) = s"

fun call_signal :: "call \<Rightarrow> signal" where
  "call_signal (CallClose s) = Background"
| "call_signal (CallCloseContext s ctx) = ctx"

text \<open>
  \<open>descends h d a\<close>: in the heap \<open>h\<close> the context \<open>d\<close> is \<open>a\<close> or is derived from it.
  \<open>unshadowed h d a\<close>: moreover no context on the way from \<open>d\<close> up to, but not
  including, \<open>a\<close> holds a value under \<open>ctxKey\<close>. \<open>associated h a\<close>: some context
  on the way from \<open>a\<close> to the root holds a value under \<open>ctxKey\<close>.
\<close>

function descends :: "heap \<Rightarrow> addr \<Rightarrow> addr \<Rightarrow> bool" where
  "descends h d a =
     (if d = a then True
      else if d < length h then
        (case h ! d of
           emptyCtx \<Rightarrow> False
         | valueCtx p k v \<Rightarrow> if p < d then descends h p a else False
         | cancelCtx p \<Rightarrow> if p < d then descends h p a else False)
      else False)"
  by pat_completeness auto
termination
  by (relation "measure (\<lambda>(h, d, a). d)") auto

declare descends.simps [simp del]

function unshadowed :: "heap \<Rightarrow> addr \<Rightarrow> addr \<Rightarrow> bool" where
  "unshadowed h d a =
     (if d = a then True
      else if d < length h then
        (case h ! d of
           emptyCtx \<Rightarrow> False
         | valueCtx p k v \<Rightarrow> if k \<noteq> ctxKey \<and> p < d then unshadowed h p a else False
         | cancelCtx p \<Rightarrow> if p < d then unshadowed h p a else False)
      else False)"
  by pat_completeness auto
termination
  by (relation "measure (\<lambda>(h, d, a). d)") auto

declare unshadowed.simps [simp del]

function associated :: "heap \<Rightarrow> addr \<Rightarrow> bool" where
  "associated h a =
     (if a < length h then
        (case h ! a of
           emptyCtx \<Rightarrow> False
         | valueCtx p k v \<Rightarrow> if k = ctxKey then True else if p < a then associated h p else False
         | cancelCtx p \<Rightarrow> if p < a then associated h p else False)
      else False)"
  by pat_completeness auto
termination
  by (relation "measure (\<lambda>(h, a). a)") auto

declare associated.simps [simp del]

text \<open>Resources, signals and schedulers of the concrete instances.\<close>

definition resA :: closer where
  "resA = \<lparr>ident = 1, delay = 10, err = None\<rparr>"

definition resB :: closer where
  "resB = \<lparr>ident = 2, delay = 20, err = Some (errorString ''closer error'')\<rparr>"

definition resC :: closer where
  "resC = \<lparr>ident = 3, delay = 800, err = Some (errorString ''second error'')\<rparr>"

text \<open>
  A resource whose \<open>Close()\<close> itself returns \<open>context.DeadlineExceeded\<close>, as a closer
  does that passes on the outcome of a shutdown bounded by a context.
\<close>

definition resD :: closer where
  "resD = \<lparr>ident = 5, delay = 10, err = Some (errorString ''context deadline exceeded'')\<rparr>"

definition resNop :: closer where
  "resNop = \<lparr>ident = 4, delay = 0, err = None\<rparr>"

definition deadline25 :: signal where
  "deadline25 = \<lparr>fires_after = Some 25, cause = DeadlineExceeded\<rparr>"

definition deadline40 :: signal where
  "deadline40 = \<lparr>fires_after = Some 40, cause = DeadlineExceeded\<rparr>"

definition fired :: signal where
  "fired = \<lparr>fires_after = Some 0, cause = Canceled\<rparr>"

definition always_next :: "nat \<Rightarrow> branch" where
  "always_next k = nextClosed"

definition always_done :: "nat \<Rightarrow> branch" where
  "always_done k = ctxDone"

definition by_index :: "nat \<Rightarrow> nat" where
  "by_index i = i"

definition sched0 :: sched where
  "sched0 = \<lparr>picks = always_next, ranks = by_index\<rparr>"

definition heap1 :: heap where
  "heap1 = [emptyCtx, valueCtx 0 ctxKey (closureValue 7)]"

definition heap2 :: heap where
  "heap2 = [emptyCtx, valueCtx 0 ctxKey (closureValue 7), valueCtx 1 ctxKey (closureValue 8)]"

definition heap3 :: heap where
  "heap3 = [emptyCtx, valueCtx 0 ctxKey (closureValue 7), cancelCtx 1, valueCtx 2 (otherKey 5) (otherValue 9)]"

chapter \<open>Properties\<close>

section \<open>The aggregator\<close>

lemma constituents_fromSlice2: "constituents (fromSlice [Some l, Some r]) = Errors l @ Errors r"
  by (simp add: fromSlice_def List.map_filter_def)

lemma Errors_not_multi: "\<not> is_multiError r \<Longrightarrow> Errors r = [r]"
  by (cases r) auto

lemma constituents_Append:
  "constituents (multierr_Append a b) = constituents a @ constituents b"
  by (cases a; cases b) (auto simp: multierr_Append_def constituents_fromSlice2 Errors_not_multi)

lemma Append_Some_right: "multierr_Append a (Some e) \<noteq> None"
  by (cases a) (auto simp: multierr_Append_def fromSlice_def List.map_filter_def)

lemma map_filter_id_Some: "List.map_filter id (map Some es) = es"
  by (induction es) (simp_all add: List.map_filter_def)

lemma fromSlice_many:
  "fromSlice (Some a # Some b # map Some bs) =
   Some (multiError (Errors a @ Errors b @ concat (map Errors bs)))"
  using map_filter_id_Some[of "a # b # bs"] by (simp add: fromSlice_def)

lemma constituents_Combine: "constituents (multierr_Combine (map Some es)) = concat (map Errors es)"
proof (cases es)
  case Nil
  then show ?thesis by (simp add: multierr_Combine_def fromSlice_def)
next
  case (Cons a as)
  show ?thesis
  proof (cases as)
    case Nil
    with Cons show ?thesis by (simp add: multierr_Combine_def fromSlice_def)
  next
    case (Cons b bs)
    with \<open>es = a # as\<close> show ?thesis by (simp add: multierr_Combine_def fromSlice_many)
  qed
qed

lemma Combine_None_iff: "multierr_Combine (map Some es) = None \<longleftrightarrow> es = []"
proof (cases es)
  case Nil
  then show ?thesis by (simp add: multierr_Combine_def fromSlice_def)
next
  case (Cons a as)
  show ?thesis
  proof (cases as)
    case Nil
    with Cons show ?thesis by (simp add: multierr_Combine_def fromSlice_def)
  next
    case (Cons b bs)
    with \<open>es = a # as\<close> show ?thesis by (simp add: multierr_Combine_def fromSlice_many)
  qed
qed

lemma Errors_ctx_Err: "Errors (ctx_Err ctx) = [ctx_Err ctx]"
  by (cases "cause ctx") (simp_all add: ctx_Err_def)

lemma constituents_callClose: "constituents (callClose c e) = constituents e @ constituents (err c)"
  by (cases "err c") (simp_all add: callClose_def constituents_Append)

lemma constituents_collect: "constituents (collect e cs) = constituents e @ failures cs"
  by (induction cs arbitrary: e) (simp_all add: collect_def failures_def constituents_callClose)

lemma callClose_None_iff: "callClose c e = None \<longleftrightarrow> e = None \<and> err c = None"
  by (cases "err c") (auto simp: callClose_def Append_Some_right)

lemma collect_None_iff: "collect e xs = None \<longleftrightarrow> e = None \<and> (\<forall>c \<in> set xs. err c = None)"
  by (induction xs arbitrary: e) (auto simp: collect_def callClose_None_iff)

subsection \<open>The text of an aggregate\<close>

lemma join_append:
  "join sep (xs @ ys) =
     (if xs = [] then join sep ys else if ys = [] then join sep xs
      else join sep xs @ sep @ join sep ys)"
  by (induction sep xs rule: join.induct) (auto simp: neq_Nil_conv)

lemma sublist_join: "sublist (join sep ys) (join sep (xs @ ys @ zs))"
proof -
  have a: "sublist (join sep ys) (join sep (ys @ zs))"
    by (simp add: join_append)
  show ?thesis
  proof (cases "xs = [] \<or> ys @ zs = []")
    case True
    then show ?thesis using a by (auto simp: join_append)
  next
    case False
    then have "join sep (xs @ ys @ zs) = (join sep xs @ sep) @ join sep (ys @ zs)"
      by (auto simp: join_append[of sep xs "ys @ zs"])
    moreover from a obtain p s where "join sep (ys @ zs) = p @ join sep ys @ s"
      by (auto simp: sublist_def)
    ultimately have "join sep (xs @ ys @ zs) = ((join sep xs @ sep) @ p) @ join sep ys @ s"
      by simp
    then show ?thesis unfolding sublist_def by blast
  qed
qed

lemma Error_join: "Error e = join ''; '' (map Error (Errors e))"
  by (cases e) simp_all

lemma Error_sublist:
  assumes "Errors x = as @ Errors e @ bs"
  shows "sublist (Error e) (Error x)"
proof -
  have "Error x = join ''; '' (map Error as @ map Error (Errors e) @ map Error bs)"
    by (subst Error_join) (simp add: assms)
  then show ?thesis
    using sublist_join[of "''; ''" "map Error (Errors e)" "map Error as" "map Error bs"]
    by (simp add: Error_join[of e, symmetric])
qed

lemma failures_split:
  assumes "c \<in> set xs" "err c = Some e"
  shows "\<exists>as bs. failures xs = as @ Errors e @ bs"
proof -
  from assms(1) obtain ys zs where "xs = ys @ c # zs" by (auto simp: in_set_conv_decomp)
  then have "failures xs = failures ys @ Errors e @ failures zs"
    using assms(2) by (simp add: failures_def)
  then show ?thesis by blast
qed

lemma complete_by_failures:
  assumes none: "r = None \<longleftrightarrow> (\<forall>c \<in> set es. err c = None)"
    and cons: "constituents r = failures xs" and same: "set xs = set es"
  shows "complete es r"
  unfolding complete_def
proof (intro conjI ballI allI impI)
  show "r = None \<longleftrightarrow> (\<forall>c \<in> set es. err c = None)" by (rule none)
next
  fix c e assume c: "c \<in> set es" "err c = Some e"
  with none obtain x where x: "r = Some x" by (cases r) auto
  from c same failures_split[of c xs e] obtain as bs where "failures xs = as @ Errors e @ bs"
    by auto
  with cons x have "Errors x = as @ Errors e @ bs" by simp
  then have "sublist (Error e) (Error x)" by (rule Error_sublist)
  with x show "\<exists>x. r = Some x \<and> sublist (Error e) (Error x)" by blast
qed

lemma complete_collect: "set xs = set es \<Longrightarrow> complete es (collect None xs)"
  by (rule complete_by_failures[where xs = xs])
     (auto simp: collect_None_iff constituents_collect)

section \<open>The sequential walks\<close>

lemma select_quiet: "quiet ctx fin \<Longrightarrow> select p ctx now fin = (nextClosed, fin)"
  by (auto simp: quiet_def select_def Let_def split: option.splits)

lemma quiet_mono: "quiet ctx t \<Longrightarrow> s \<le> t \<Longrightarrow> quiet ctx s"
  by (auto simp: quiet_def split: option.splits)

lemma select_fires:
  "fires_after ctx = Some d \<Longrightarrow> now \<le> d \<Longrightarrow> d < fin \<Longrightarrow> select p ctx now fin = (ctxDone, d)"
  by (simp add: select_def Let_def max_def)

lemma queue_appended: "queue (foldl Fifo_Append f es) = queue f @ es"
  by (induction es arbitrary: f) (simp_all add: Fifo_Append_def)

lemma stack_appended: "stack (foldl Lifo_Append l es) = stack l @ es"
  by (induction es arbitrary: l) (simp_all add: Lifo_Append_def)

lemma closers_appended: "closers (foldl Group_Append g es) = closers g @ es"
  by (induction es arbitrary: g) (simp_all add: Group_Append_def)

lemma queue_Fifo_of: "queue (Fifo_of es) = es"
  by (simp add: Fifo_of_def queue_appended Fifo_new_def)

lemma stack_Lifo_of: "stack (Lifo_of es) = es"
  by (simp add: Lifo_of_def stack_appended Lifo_new_def)

lemma closers_Group_of: "closers (Group_of es) = es"
  by (simp add: Group_of_def closers_appended Group_new_def)

text \<open>While the signal is silent the queue's loop runs through a prefix undisturbed.\<close>

lemma Fifo_loop_prefix:
  "quiet ctx (clock w + sum_list (map delay xs)) \<Longrightarrow>
   Fifo_loop pick ctx k (xs @ ys) w =
   Fifo_loop pick ctx (k + length xs) ys
     \<lparr>errs = collect (errs w) xs, clock = clock w + sum_list (map delay xs), issued = issued w @ xs\<rparr>"
proof (induction xs arbitrary: w k)
  case Nil
  then show ?case by (cases w) (simp add: collect_def)
next
  case (Cons x xs)
  have q1: "quiet ctx (clock w + delay x)"
    using Cons.prems by (rule quiet_mono) simp
  let ?w = "\<lparr>errs = callClose x (errs w), clock = clock w + delay x, issued = issued w @ [x]\<rparr>"
  have "quiet ctx (clock ?w + sum_list (map delay xs))"
    using Cons.prems by (simp add: add.assoc)
  from Cons.IH[OF this, of "Suc k"] show ?case
    by (simp add: select_quiet[OF q1] collect_def add.assoc)
qed

lemma Fifo_loop_quiet:
  "quiet ctx (sum_list (map delay xs)) \<Longrightarrow>
   Fifo_loop pick ctx 0 xs start =
   \<lparr>result = collect None xs, closed = xs, elapsed = sum_list (map delay xs)\<rparr>"
  using Fifo_loop_prefix[of ctx start xs pick 0 "[]"] by (simp add: start_def)

lemma Fifo_loop_fires:
  assumes "fires_after ctx = Some d" "clock w \<le> d" "d < clock w + delay c"
  shows "Fifo_loop pick ctx k (c # cs) w =
         \<lparr>result = multierr_Append (errs w) (Some (ctx_Err ctx)), closed = issued w @ [c], elapsed = d\<rparr>"
  using assms by (simp add: select_fires Let_def)

lemma Fifo_loop_fires_during:
  assumes "fires_during ctx xs k" "fires_after ctx = Some d"
  shows "Fifo_loop pick ctx 0 xs start =
         \<lparr>result = multierr_Append (collect None (take k xs)) (Some (ctx_Err ctx)),
          closed = take (Suc k) xs, elapsed = d\<rparr>"
proof -
  from assms have k: "k < length xs" and lo: "sum_list (map delay (take k xs)) < d"
    and hi: "d < sum_list (map delay (take (Suc k) xs))"
    by (simp_all add: fires_during_def)
  have split: "xs = take k xs @ (xs ! k # drop (Suc k) xs)"
    using k by (simp add: id_take_nth_drop[symmetric])
  have q: "quiet ctx (clock start + sum_list (map delay (take k xs)))"
    using lo assms(2) by (simp add: quiet_def start_def)
  have hi': "d < sum_list (map delay (take k xs)) + delay (xs ! k)"
    using hi k by (simp add: take_Suc_conv_app_nth)
  have "Fifo_loop pick ctx 0 xs start =
        Fifo_loop pick ctx 0 (take k xs @ (xs ! k # drop (Suc k) xs)) start"
    using split by simp
  also have "\<dots> = Fifo_loop pick ctx (0 + length (take k xs)) (xs ! k # drop (Suc k) xs)
     \<lparr>errs = collect (errs start) (take k xs),
      clock = clock start + sum_list (map delay (take k xs)),
      issued = issued start @ take k xs\<rparr>"
    by (rule Fifo_loop_prefix[OF q])
  also have "\<dots> = \<lparr>result = multierr_Append (collect None (take k xs)) (Some (ctx_Err ctx)),
          closed = take k xs @ [xs ! k], elapsed = d\<rparr>"
    using lo hi' by (subst Fifo_loop_fires[OF assms(2)]) (simp_all add: start_def)
  finally show ?thesis using k by (simp add: take_Suc_conv_app_nth)
qed

lemma Fifo_loop_walk_cut:
  assumes "fires_during ctx xs k"
  shows "walk_cut ctx xs k (Fifo_loop pick ctx 0 xs start)"
proof -
  from assms obtain d where d: "fires_after ctx = Some d"
    by (auto simp: fires_during_def split: option.splits)
  show ?thesis
    unfolding walk_cut_def
    by (simp add: Fifo_loop_fires_during[OF assms d] d constituents_Append constituents_collect
        Errors_ctx_Err)
qed

text \<open>The stack's loop is the queue's loop over the reversed stack.\<close>

lemma Fifo_loop_shift: "Fifo_loop p ctx (Suc k) xs w = Fifo_loop (\<lambda>j. p (Suc j)) ctx k xs w"
  by (induction xs arbitrary: k w) (simp_all add: Let_def split: prod.splits branch.splits)

lemma Lifo_loop_as_Fifo:
  "n \<le> length st \<Longrightarrow>
   Lifo_loop pick ctx st n w = Fifo_loop (\<lambda>j. pick (n - 1 - j)) ctx 0 (rev (take n st)) w"
proof (induction n arbitrary: w)
  case 0
  then show ?case by simp
next
  case (Suc i)
  then have i: "i < length st" "i \<le> length st" by simp_all
  have *: "rev (take (Suc i) st) = st ! i # rev (take i st)"
    using i by (simp add: take_Suc_conv_app_nth)
  show ?case
    unfolding * using Suc.IH[OF i(2)]
    by (simp add: Let_def Fifo_loop_shift split: prod.splits branch.splits)
qed

lemma Lifo_CloseContext_as_Fifo:
  "Lifo_CloseContext pick ctx l =
   Fifo_loop (\<lambda>j. pick (length (stack l) - 1 - j)) ctx 0 (rev (stack l)) start"
  by (simp add: Lifo_CloseContext_def Lifo_loop_as_Fifo)

text \<open>
  A walk that holds one entry, or whose signal is silent when the closes before the
  last entry have returned, dispatches the close of every entry.
\<close>

lemma Fifo_loop_single: "closed (Fifo_loop pick ctx k [c] w) = issued w @ [c]"
  by (simp add: Let_def split: prod.splits branch.splits)

lemma Fifo_loop_reaches_last:
  assumes "length xs \<le> 1 \<or> quiet ctx (clock w + sum_list (map delay (butlast xs)))"
  shows "closed (Fifo_loop pick ctx k xs w) = issued w @ xs"
proof (cases "xs = []")
  case True
  then show ?thesis by simp
next
  case False
  then have xs: "xs = butlast xs @ [last xs]" by simp
  show ?thesis
  proof (cases "length xs \<le> 1")
    case True
    with False have "butlast xs = []" by (cases xs) auto
    with xs have "xs = [last xs]" by simp
    then show ?thesis using Fifo_loop_single[of pick ctx k "last xs" w] by simp
  next
    case False
    with assms have q: "quiet ctx (clock w + sum_list (map delay (butlast xs)))" by simp
    have "closed (Fifo_loop pick ctx k (butlast xs @ [last xs]) w) = issued w @ butlast xs @ [last xs]"
      unfolding Fifo_loop_prefix[OF q] Fifo_loop_single by simp
    with xs show ?thesis by simp
  qed
qed

text \<open>The closes dispatched by a walk are a prefix of the walk, whatever the signal does.\<close>

lemma Fifo_loop_closed_between:
  "prefix (issued w) (closed (Fifo_loop pick ctx k xs w)) \<and>
   prefix (closed (Fifo_loop pick ctx k xs w)) (issued w @ xs)"
proof (induction xs arbitrary: k w)
  case Nil
  then show ?case by simp
next
  case (Cons c cs)
  show ?case
  proof (cases "select (pick k) ctx (clock w) (clock w + delay c)")
    case (Pair b t)
    show ?thesis
    proof (cases b)
      case ctxDone
      with Pair show ?thesis by (simp add: Let_def)
    next
      case nextClosed
      let ?w = "\<lparr>errs = callClose c (errs w), clock = t, issued = issued w @ [c]\<rparr>"
      from Cons.IH[of ?w "Suc k"]
      have "prefix (issued w @ [c]) (closed (Fifo_loop pick ctx (Suc k) cs ?w))"
        and "prefix (closed (Fifo_loop pick ctx (Suc k) cs ?w)) (issued w @ c # cs)"
        by simp_all
      with Pair nextClosed show ?thesis
        by (auto simp: Let_def dest: append_prefixD)
    qed
  qed
qed

lemma Fifo_loop_dispatches_first:
  assumes "xs \<noteq> []"
  shows "closed (Fifo_loop pick ctx k xs start) \<noteq> [] \<and> hd (closed (Fifo_loop pick ctx k xs start)) = hd xs"
proof -
  from assms obtain c cs where xs: "xs = c # cs" by (cases xs) auto
  obtain b t where s: "select (pick k) ctx 0 (delay c) = (b, t)" by (cases "select (pick k) ctx 0 (delay c)")
  show ?thesis
  proof (cases b)
    case ctxDone
    with s xs show ?thesis by (simp add: Let_def start_def)
  next
    case nextClosed
    let ?w = "\<lparr>errs = callClose c None, clock = t, issued = [c]\<rparr>"
    from Fifo_loop_closed_between[of ?w pick ctx "Suc k" cs]
    have "prefix [c] (closed (Fifo_loop pick ctx (Suc k) cs ?w))" by simp
    then obtain zs where "closed (Fifo_loop pick ctx (Suc k) cs ?w) = [c] @ zs"
      by (auto simp: prefix_def)
    with s xs nextClosed show ?thesis by (simp add: Let_def start_def)
  qed
qed

text \<open>
  Under a signal that has fired before the call, the result carries \<open>ctx.Err()\<close> as
  soon as one select takes the cancellation case: at an entry that takes time, or at a
  tie that the scheduler resolves that way.
\<close>

lemma Fifo_loop_fired_reports:
  "fires_after ctx = Some 0 \<Longrightarrow>
   \<exists>j < length xs. 0 < delay (xs ! j) \<or> pick (k + j) = ctxDone \<Longrightarrow>
   ctx_Err ctx \<in> set (constituents (result (Fifo_loop pick ctx k xs w)))"
proof (induction xs arbitrary: k w)
  case Nil
  then show ?case by simp
next
  case (Cons c cs)
  have mem: "\<And>e. ctx_Err ctx \<in> set (constituents (multierr_Append e (Some (ctx_Err ctx))))"
    by (simp add: constituents_Append Errors_ctx_Err)
  show ?case
  proof (cases "0 < delay c \<or> pick k = ctxDone")
    case True
    then have "fst (select (pick k) ctx (clock w) (clock w + delay c)) = ctxDone"
      using Cons.prems(1) by (auto simp: select_def Let_def)
    then show ?thesis
      using mem by (auto simp: Let_def split: prod.splits branch.splits)
  next
    case False
    then have z: "delay c = 0" and p: "pick k = nextClosed"
      by (auto intro: branch.exhaust)
    from Cons.prems(2) obtain j where j: "j < length (c # cs)"
      "0 < delay ((c # cs) ! j) \<or> pick (k + j) = ctxDone"
      by blast
    with z p have "j \<noteq> 0" by (cases j) auto
    then obtain j' where j': "j = Suc j'" by (cases j) auto
    with j have "\<exists>j < length cs. 0 < delay (cs ! j) \<or> pick (Suc k + j) = ctxDone"
      by auto
    from Cons.IH[OF Cons.prems(1) this] show ?thesis
      using z p Cons.prems(1) by (simp add: select_def Let_def)
  qed
qed

section \<open>The group\<close>

lemma leg_le_fire: "fires_after ctx = Some d \<Longrightarrow> leg pick ctx u \<le> d"
  by (auto simp: leg_def select_def Let_def split: option.splits)

lemma leg_fire: "fires_after ctx = Some d \<Longrightarrow> d < delay (snd u) \<Longrightarrow> leg pick ctx u = d"
  by (auto simp: leg_def select_def Let_def split: option.splits)

lemma leg_quiet: "quiet ctx (delay (snd u)) \<Longrightarrow> leg pick ctx u = delay (snd u)"
  by (simp add: leg_def select_quiet)

lemma failures_map_filter:
  "concat (map Errors (List.map_filter (\<lambda>u. err (snd u)) xs)) = failures (map snd xs)"
proof (induction xs)
  case Nil
  show ?case by (simp add: List.map_filter_def failures_def)
next
  case (Cons x xs)
  then show ?case
    by (cases "err (snd x)") (simp_all add: List.map_filter_def failures_def)
qed

lemma mset_failures: "mset (failures xs) = (\<Sum>c\<in>#mset xs. mset (constituents (err c)))"
proof -
  have "mset (failures xs) = sum_list (map (\<lambda>c. mset (constituents (err c))) xs)"
    by (simp add: failures_def mset_concat comp_def)
  also have "\<dots> = sum_mset (mset (map (\<lambda>c. mset (constituents (err c))) xs))"
    by (simp only: sum_mset_sum_list)
  finally show ?thesis by simp
qed

lemma mset_failures_cong: "mset xs = mset ys \<Longrightarrow> mset (failures xs) = mset (failures ys)"
  by (simp add: mset_failures)

lemma set_failures: "set (failures xs) = (\<Union>c \<in> set xs. set (constituents (err c)))"
  by (simp add: failures_def)

lemma map_delay_enumerate: "map (\<lambda>u. delay (snd u)) (enumerate n cs) = map delay cs"
  by (induction cs arbitrary: n) auto

lemma map_snd_filter_enumerate:
  "map snd (filter (\<lambda>u. P (snd u)) (enumerate n cs)) = filter P cs"
  by (induction cs arbitrary: n) auto

lemma Group_elapsed:
  "elapsed (Group_CloseContext pick rank ctx g) =
   Max (set (0 # map (leg pick ctx) (enumerate 0 (closers g))))"
  by (simp add: Group_CloseContext_def Let_def)

lemma resolves_quiet: "quiet ctx (delay (snd u)) \<Longrightarrow> resolves pick ctx u = nextClosed"
  by (simp add: resolves_def select_quiet)

lemma resolves_late:
  "fires_after ctx = Some d \<Longrightarrow> d < delay (snd u) \<Longrightarrow> resolves pick ctx u = ctxDone"
  by (auto simp: resolves_def select_def Let_def)

lemma resolves_recorded:
  "fires_after ctx = Some d \<Longrightarrow> resolves pick ctx u = nextClosed \<Longrightarrow> delay (snd u) \<le> d"
  using resolves_late[of ctx d u pick] by (cases "d < delay (snd u)") auto

lemma resolves_early:
  "fires_after ctx = Some d \<Longrightarrow> delay (snd u) < d \<Longrightarrow> resolves pick ctx u = nextClosed"
  by (auto simp: resolves_def select_def Let_def)

lemma resolves_cause: "resolves pick (ctx\<lparr>cause := k\<rparr>) u = resolves pick ctx u"
  by (simp add: resolves_def select_def)

lemma mset_failures_mono:
  assumes "mset xs \<subseteq># mset ys"
  shows "mset (failures xs) \<subseteq># mset (failures ys)"
proof -
  from assms obtain C where "mset ys = mset xs + C"
    by (auto simp: mset_subset_eq_exists_conv)
  then have "mset (failures ys) = mset (failures xs) + (\<Sum>c\<in>#C. mset (constituents (err c)))"
    by (simp add: mset_failures)
  then show ?thesis by simp
qed

lemma recorded_upper:
  assumes "\<And>u. P u \<Longrightarrow> Q (snd u)"
  shows "mset (map snd (filter P (enumerate n cs))) \<subseteq># mset (filter Q cs)"
proof (induction cs arbitrary: n)
  case Nil
  show ?case by simp
next
  case (Cons c cs)
  show ?case
  proof (cases "P (n, c)")
    case True
    then have "Q c" using assms[of "(n, c)"] by simp
    with True Cons[of "Suc n"] show ?thesis by simp
  next
    case False
    have "mset (map snd (filter P (enumerate (Suc n) cs))) \<subseteq># mset (filter Q (c # cs))"
      using Cons[of "Suc n"] by (cases "Q c") (auto intro: subset_mset.order_trans)
    with False show ?thesis by simp
  qed
qed

lemma recorded_lower:
  assumes "\<And>u. Q (snd u) \<Longrightarrow> P u"
  shows "mset (filter Q cs) \<subseteq># mset (map snd (filter P (enumerate n cs)))"
proof (induction cs arbitrary: n)
  case Nil
  show ?case by simp
next
  case (Cons c cs)
  show ?case
  proof (cases "Q c")
    case True
    then have "P (n, c)" using assms[of "(n, c)"] by simp
    with True Cons[of "Suc n"] show ?thesis by simp
  next
    case False
    have "mset (filter Q cs) \<subseteq># mset (map snd (filter P (enumerate n (c # cs))))"
      using Cons[of "Suc n"] by (cases "P (n, c)") (auto intro: subset_mset.order_trans)
    with False show ?thesis by simp
  qed
qed

lemma mset_map_snd_sort_key: "mset (map snd (sort_key f xs)) = mset (map snd xs)"
  by simp

lemma Group_closed: "mset (closed (Group_CloseContext pick rank ctx g)) = mset (closers g)"
proof -
  have "closed (Group_CloseContext pick rank ctx g)
        = map snd (sort_key (\<lambda>u. rank (2 * fst u)) (enumerate 0 (closers g)))"
    by (simp add: Group_CloseContext_def Let_def)
  then have "mset (closed (Group_CloseContext pick rank ctx g)) = mset (map snd (enumerate 0 (closers g)))"
    by (simp only: mset_map_snd_sort_key)
  then show ?thesis by (simp only: map_snd_enumerate)
qed

lemma Group_result:
  "constituents (result (Group_CloseContext pick rank ctx g)) =
   failures (map snd (sort_key (\<lambda>u. delay (snd u)) (sort_key (\<lambda>u. rank (2 * fst u + 1))
      (filter (\<lambda>u. resolves pick ctx u = nextClosed) (enumerate 0 (closers g))))))"
  by (simp add: Group_CloseContext_def Let_def constituents_Combine failures_map_filter)

lemma Group_recorded:
  "mset (map snd (sort_key (\<lambda>u. delay (snd u)) (sort_key (\<lambda>u. rank (2 * fst u + 1))
      (filter (\<lambda>u. resolves pick ctx u = nextClosed) (enumerate 0 (closers g))))))
   = mset (map snd (filter (\<lambda>u. resolves pick ctx u = nextClosed) (enumerate 0 (closers g))))"
  by simp

lemma Group_result_mset:
  "mset (constituents (result (Group_CloseContext pick rank ctx g))) =
   mset (failures (map snd (filter (\<lambda>u. resolves pick ctx u = nextClosed) (enumerate 0 (closers g)))))"
  by (subst Group_result) (rule mset_failures_cong, rule Group_recorded)

lemma Group_result_upper:
  assumes "fires_after ctx = Some d"
  shows "mset (constituents (result (Group_CloseContext pick rank ctx g)))
         \<subseteq># mset (failures (filter (\<lambda>c. delay c \<le> d) (closers g)))"
  unfolding Group_result_mset
  by (intro mset_failures_mono recorded_upper) (rule resolves_recorded[OF assms])

lemma Group_result_lower:
  assumes "fires_after ctx = Some d"
  shows "mset (failures (filter (\<lambda>c. delay c < d) (closers g)))
         \<subseteq># mset (constituents (result (Group_CloseContext pick rank ctx g)))"
  unfolding Group_result_mset
  by (intro mset_failures_mono recorded_lower) (rule resolves_early[OF assms])

lemma Group_result_cause:
  "result (Group_CloseContext pick rank (ctx\<lparr>cause := k\<rparr>) g) = result (Group_CloseContext pick rank ctx g)"
  by (simp add: Group_CloseContext_def Let_def resolves_cause)

lemma Group_waits_for_legs:
  assumes "i < length (closers g)"
  shows "leg pick ctx (i, closers g ! i) \<le> elapsed (Group_CloseContext pick rank ctx g)"
proof -
  let ?us = "enumerate 0 (closers g)"
  have "?us ! i = (i, closers g ! i)" using assms by (simp add: nth_enumerate_eq)
  moreover have "?us ! i \<in> set ?us" using assms by simp
  ultimately have "leg pick ctx (i, closers g ! i) \<in> set (0 # map (leg pick ctx) ?us)"
    by (metis image_eqI list.set_intros(2) list.set_map)
  then show ?thesis
    unfolding Group_elapsed by (intro Max_ge) simp_all
qed

lemma Group_elapsed_fired:
  assumes "fires_after ctx = Some d" "\<exists>c \<in> set (closers g). d < delay c"
  shows "elapsed (Group_CloseContext pick rank ctx g) = d"
proof -
  let ?us = "enumerate 0 (closers g)"
  let ?L = "set (0 # map (leg pick ctx) ?us)"
  from assms(2) obtain i where i: "i < length (closers g)" "d < delay (closers g ! i)"
    by (auto simp: in_set_conv_nth)
  then have "leg pick ctx (i, closers g ! i) = d"
    using assms(1) by (simp add: leg_fire)
  moreover have "(i, closers g ! i) \<in> set ?us"
    using i(1) by (simp add: in_set_enumerate_eq)
  ultimately have "d \<in> ?L" by force
  moreover have "\<forall>x \<in> ?L. x \<le> d"
    using leg_le_fire[OF assms(1)] by auto
  ultimately have "Max ?L = d"
    by (intro Max_eqI) auto
  then show ?thesis by (simp add: Group_elapsed)
qed

lemma Group_elapsed_quiet:
  assumes "\<forall>c \<in> set (closers g). quiet ctx (delay c)"
  shows "elapsed (Group_CloseContext pick rank ctx g) = Max (set (0 # map delay (closers g)))"
proof -
  have "map (leg pick ctx) (enumerate 0 (closers g)) = map (\<lambda>u. delay (snd u)) (enumerate 0 (closers g))"
    using assms by (intro map_cong refl leg_quiet) (auto simp: in_set_enumerate_eq)
  also have "\<dots> = map delay (closers g)"
    by (rule map_delay_enumerate)
  finally show ?thesis by (simp add: Group_elapsed)
qed

lemma map_filter_Nil_iff: "List.map_filter f xs = [] \<longleftrightarrow> (\<forall>x \<in> set xs. f x = None)"
  by (induction xs) (auto simp: List.map_filter_def)

lemma Group_all_recorded:
  assumes "\<forall>c \<in> set (closers g). quiet ctx (delay c)"
  shows "filter (\<lambda>u. resolves pick ctx u = nextClosed) (enumerate 0 (closers g))
         = enumerate 0 (closers g)"
  using assms by (auto simp: filter_id_conv in_set_enumerate_eq intro!: resolves_quiet)

lemma set_snd_enumerate: "snd ` set (enumerate n cs) = set cs"
  by (metis list.set_map map_snd_enumerate)

lemma Group_result_None_iff:
  assumes "\<forall>c \<in> set (closers g). quiet ctx (delay c)"
  shows "result (Group_CloseContext pick rank ctx g) = None \<longleftrightarrow> (\<forall>c \<in> set (closers g). err c = None)"
proof -
  have "result (Group_CloseContext pick rank ctx g) = None
        \<longleftrightarrow> (\<forall>u \<in> set (enumerate 0 (closers g)). err (snd u) = None)"
    by (simp add: Group_CloseContext_def Let_def Combine_None_iff map_filter_Nil_iff
        Group_all_recorded[OF assms])
  also have "\<dots> \<longleftrightarrow> (\<forall>c \<in> snd ` set (enumerate 0 (closers g)). err c = None)" by simp
  finally show ?thesis by (simp only: set_snd_enumerate)
qed

lemma Group_complete:
  assumes "\<forall>c \<in> set (closers g). quiet ctx (delay c)"
  shows "complete (closers g) (result (Group_CloseContext pick rank ctx g))"
proof -
  let ?xs = "map snd (sort_key (\<lambda>u. delay (snd u)) (sort_key (\<lambda>u. rank (2 * fst u + 1))
      (filter (\<lambda>u. resolves pick ctx u = nextClosed) (enumerate 0 (closers g)))))"
  have "set ?xs = snd ` set (enumerate 0 (closers g))"
    by (simp add: Group_all_recorded[OF assms])
  then have "set ?xs = set (closers g)"
    by (simp only: set_snd_enumerate)
  with Group_result_None_iff[OF assms] Group_result show ?thesis
    by (intro complete_by_failures[where xs = ?xs]) auto
qed

section \<open>The default registry\<close>

lemma perform_eq: "perform c p = CloseContext (call_sched c) (call_signal c) p"
  by (cases c) (simp_all add: Close_def)

lemma perform_once: "once p \<Longrightarrow> perform c p = (None, p)"
  by (simp add: perform_eq CloseContext_def)

lemma run_once: "once p \<Longrightarrow> run cs p = (replicate (length cs) None, p)"
  by (induction cs) (simp_all add: perform_once)

lemma once_after_perform: "once (snd (perform c p))"
  by (simp add: perform_eq CloseContext_def Let_def)

lemma run_Cons:
  "run (c # cs) p = (fst (perform c p) # replicate (length cs) None, snd (perform c p))"
  using run_once[OF once_after_perform, of cs c p]
  by (simp add: split_def Let_def)

lemma perform_fresh:
  "\<not> once p \<Longrightarrow> perform c p =
     (result (closure_CloseContext (call_sched c) (call_signal c) (pkgClosure p)),
      p\<lparr>once := True, strategy_closes := Suc (strategy_closes p),
        resource_closes := resource_closes p @
          closed (closure_CloseContext (call_sched c) (call_signal c) (pkgClosure p))\<rparr>)"
  by (simp add: perform_eq CloseContext_def Let_def)

lemma registry_fields:
  "once (registry cl es) = False \<and> strategy_closes (registry cl es) = 0 \<and>
   resource_closes (registry cl es) = []"
proof -
  have "once (foldl (\<lambda>p c. Append c p) p es) = once p \<and>
        strategy_closes (foldl (\<lambda>p c. Append c p) p es) = strategy_closes p \<and>
        resource_closes (foldl (\<lambda>p c. Append c p) p es) = resource_closes p" for p
    by (induction es arbitrary: p) (simp_all add: Append_def)
  then show ?thesis by (simp add: registry_def SetPackageClosure_def init_def)
qed

lemma registered_closure_Append: "registered (closure_Append cl c) = registered cl @ [c]"
  by (cases cl) (simp_all add: Fifo_Append_def Lifo_Append_def Group_Append_def)

lemma registered_registry: "registered (pkgClosure (registry cl es)) = registered cl @ es"
proof -
  have "registered (pkgClosure (foldl (\<lambda>p c. Append c p) p es)) = registered (pkgClosure p) @ es" for p
    by (induction es arbitrary: p) (simp_all add: Append_def registered_closure_Append)
  then show ?thesis by (simp add: registry_def SetPackageClosure_def)
qed

lemma prefix_mset: "prefix xs ys \<Longrightarrow> mset xs \<subseteq># mset ys"
  by (auto simp: prefix_def)

lemma closed_at_most_registered:
  "mset (closed (closure_CloseContext s ctx cl)) \<subseteq># mset (registered cl)"
proof (cases cl)
  case (FifoC f)
  then show ?thesis
    using Fifo_loop_closed_between[of start "picks s" ctx 0 "queue f"]
    by (auto simp: Fifo_CloseContext_def start_def dest: prefix_mset)
next
  case (LifoC l)
  then show ?thesis
    using Fifo_loop_closed_between[of start "\<lambda>j. picks s (length (stack l) - 1 - j)" ctx 0 "rev (stack l)"]
    by (auto simp: Lifo_CloseContext_as_Fifo start_def dest: prefix_mset)
next
  case (GroupC g)
  then show ?thesis by (simp add: Group_closed)
qed

lemma closed_all_registered:
  assumes "undisturbed ctx cl"
  shows "mset (closed (closure_CloseContext s ctx cl)) = mset (registered cl)"
proof (cases cl)
  case (FifoC f)
  with assms have "closed (Fifo_loop (picks s) ctx 0 (queue f) start) = issued start @ queue f"
    by (intro Fifo_loop_reaches_last) (simp add: start_def)
  with FifoC show ?thesis by (simp add: Fifo_CloseContext_def start_def)
next
  case (LifoC l)
  have "sum_list (map delay (butlast (rev (stack l)))) = sum_list (map delay (tl (stack l)))"
    by (simp add: butlast_rev rev_map[symmetric])
  with LifoC assms
  have "closed (Fifo_loop (\<lambda>j. picks s (length (stack l) - 1 - j)) ctx 0 (rev (stack l)) start)
        = issued start @ rev (stack l)"
    by (intro Fifo_loop_reaches_last) (simp add: start_def)
  with LifoC show ?thesis by (simp add: Lifo_CloseContext_as_Fifo start_def)
next
  case (GroupC g)
  then show ?thesis by (simp add: Group_closed)
qed

section \<open>The context association\<close>

lemma Value_frame: "a < length h \<Longrightarrow> Value (h @ ns) a k = Value h a k"
proof (induction a rule: less_induct)
  case (less a)
  then have a: "a < length h" by simp
  show ?case
  proof (cases "h ! a")
    case emptyCtx
    with a show ?thesis by (simp add: Value.simps[of _ a] nth_append)
  next
    case (valueCtx p k' v)
    show ?thesis
    proof (cases "k' \<noteq> k \<and> p < a")
      case True
      then have "Value (h @ ns) p k = Value h p k" using less.IH[of p] a by simp
      with True a valueCtx show ?thesis by (simp add: Value.simps[of _ a] nth_append)
    next
      case False
      with a valueCtx show ?thesis by (auto simp: Value.simps[of _ a] nth_append)
    qed
  next
    case (cancelCtx p)
    show ?thesis
    proof (cases "p < a")
      case True
      then have "Value (h @ ns) p k = Value h p k" using less.IH[of p] a by simp
      with True a cancelCtx show ?thesis by (simp add: Value.simps[of _ a] nth_append)
    next
      case False
      with a cancelCtx show ?thesis by (simp add: Value.simps[of _ a] nth_append)
    qed
  qed
qed

lemma Value_unshadowed: "unshadowed h d a \<Longrightarrow> Value h d ctxKey = Value h a ctxKey"
proof (induction d rule: less_induct)
  case (less d)
  show ?case
  proof (cases "d = a")
    case True
    then show ?thesis by simp
  next
    case False
    with less.prems have d: "d < length h"
      by (simp add: unshadowed.simps[of h d] split: if_splits)
    show ?thesis
    proof (cases "h ! d")
      case emptyCtx
      with less.prems False d show ?thesis by (simp add: unshadowed.simps[of h d])
    next
      case (valueCtx p k v)
      with less.prems False d have *: "k \<noteq> ctxKey" "p < d" "unshadowed h p a"
        by (simp_all add: unshadowed.simps[of h d] split: if_splits)
      from less.IH[OF *(2,3)] valueCtx d * show ?thesis
        by (simp add: Value.simps[of h d])
    next
      case (cancelCtx p)
      with less.prems False d have *: "p < d" "unshadowed h p a"
        by (simp_all add: unshadowed.simps[of h d] split: if_splits)
      from less.IH[OF *] cancelCtx d * show ?thesis
        by (simp add: Value.simps[of h d])
    qed
  qed
qed

lemma Value_not_associated: "\<not> associated h a \<Longrightarrow> Value h a ctxKey = nilValue"
proof (induction a rule: less_induct)
  case (less a)
  show ?case
  proof (cases "a < length h")
    case False
    then show ?thesis by (simp add: Value.simps[of h a])
  next
    case True
    show ?thesis
    proof (cases "h ! a")
      case emptyCtx
      with True show ?thesis by (simp add: Value.simps[of h a])
    next
      case (valueCtx p k v)
      with less.prems True have k: "k \<noteq> ctxKey" and "p < a \<longrightarrow> \<not> associated h p"
        by (auto simp: associated.simps[of h a] split: if_splits)
      with less.IH[of p] valueCtx True show ?thesis
        by (auto simp: Value.simps[of h a])
    next
      case (cancelCtx p)
      with less.prems True have "p < a \<longrightarrow> \<not> associated h p"
        by (auto simp: associated.simps[of h a] split: if_splits)
      with less.IH[of p] cancelCtx True show ?thesis
        by (auto simp: Value.simps[of h a])
    qed
  qed
qed

lemma unshadowed_valid: "unshadowed h d a \<Longrightarrow> a < length h \<Longrightarrow> d < length h"
  by (cases "d = a") (auto simp: unshadowed.simps[of h d] split: if_splits)

lemma Value_attached: "Value (h @ [valueCtx p ctxKey v] @ ns) (length h) ctxKey = v"
  by (simp add: Value.simps[of _ "length h"] nth_append)

lemma ClosureFromContext_frame:
  "b < length h \<Longrightarrow> ClosureFromContext (h @ ns) b = ClosureFromContext h b"
  by (simp add: ClosureFromContext_def Value_frame)

lemma ClosureToContext_Some:
  "ClosureToContext h ctx cl = Some (h', a) \<longleftrightarrow>
   ctx < length h \<and> a = length h \<and>
   h' = h @ [valueCtx ctx ctxKey (case cl of None \<Rightarrow> nilValue | Some c \<Rightarrow> closureValue c)]"
  by (auto simp: ClosureToContext_def WithValue_def)

lemma unshadowed_descends: "unshadowed h d a \<Longrightarrow> descends h d a"
proof (induction d rule: less_induct)
  case (less d)
  show ?case
  proof (cases "d = a")
    case True
    then show ?thesis by (subst descends.simps) simp
  next
    case False
    with less.prems have d: "d < length h"
      by (simp add: unshadowed.simps[of h d] split: if_splits)
    show ?thesis
    proof (cases "h ! d")
      case emptyCtx
      with less.prems False d show ?thesis by (simp add: unshadowed.simps[of h d])
    next
      case (valueCtx p k v)
      with less.prems False d have *: "p < d" "unshadowed h p a"
        by (simp_all add: unshadowed.simps[of h d] split: if_splits)
      from less.IH[OF *] valueCtx d * False show ?thesis
        by (simp add: descends.simps[of h d])
    next
      case (cancelCtx p)
      with less.prems False d have *: "p < d" "unshadowed h p a"
        by (simp_all add: unshadowed.simps[of h d] split: if_splits)
      from less.IH[OF *] cancelCtx d * False show ?thesis
        by (simp add: descends.simps[of h d])
    qed
  qed
qed

chapter \<open>The claims\<close>

section \<open>Order of closing\<close>

text \<open>
  C3. A queue to which \<open>es\<close> were appended in this order, closed under a signal that
  never fires (in particular by \<open>Close\<close>), dispatches the close of every entry
  exactly once and in the order of registration: the log of dispatched closes is \<open>es\<close>
  itself, whatever the entries return (a failing entry does not stop the walk).
\<close>

theorem Fifo_closes_in_registration_order:
  "(fires_after ctx = None \<longrightarrow> closed (Fifo_CloseContext pick ctx (Fifo_of es)) = es)
   \<and> closed (Fifo_Close pick (Fifo_of es)) = es"
  by (simp add: Fifo_Close_def Background_def Fifo_CloseContext_def queue_Fifo_of Fifo_loop_quiet
      quiet_def)

theorem Fifo_closes_in_registration_order_witness:
  "fires_after Background = None \<and>
   closed (Fifo_CloseContext always_done Background (Fifo_of [resB, resA, resC])) = [resB, resA, resC]"
proof -
  have h: "fires_after Background = None" by (simp add: Background_def)
  with Fifo_closes_in_registration_order[of Background always_done "[resB, resA, resC]"]
  show ?thesis by blast
qed

text \<open>
  C4. A stack to which \<open>es\<close> were appended in this order, closed under a signal that
  never fires (in particular by \<open>Close\<close>), dispatches the close of every entry
  exactly once and in reverse order of registration: the log of dispatched closes is
  \<open>rev es\<close>.
\<close>

theorem Lifo_closes_in_reverse_order:
  "(fires_after ctx = None \<longrightarrow> closed (Lifo_CloseContext pick ctx (Lifo_of es)) = rev es)
   \<and> closed (Lifo_Close pick (Lifo_of es)) = rev es"
  by (simp add: Lifo_Close_def Background_def Lifo_CloseContext_as_Fifo stack_Lifo_of
      Fifo_loop_quiet quiet_def)

theorem Lifo_closes_in_reverse_order_witness:
  "fires_after Background = None \<and>
   closed (Lifo_CloseContext always_done Background (Lifo_of [resA, resB, resC])) = [resC, resB, resA]"
proof -
  have h: "fires_after Background = None" by (simp add: Background_def)
  with Lifo_closes_in_reverse_order[of Background always_done "[resA, resB, resC]"]
  have "closed (Lifo_CloseContext always_done Background (Lifo_of [resA, resB, resC]))
      = rev [resA, resB, resC]"
    by blast
  with h show ?thesis by simp
qed

section \<open>Cancellation of a sequential walk\<close>

text \<open>
  C1. For the queue and the stack: if the signal fires while the walk waits on the
  close of an entry (number \<open>k\<close> of the walk), the walk stops at that moment, the
  closes dispatched are exactly those of the entries up to and including that one (no
  later entry is attempted), and the result is the aggregate of the failures of the
  entries before it with the signal's terminal error appended as the last constituent.
  The queue walks \<open>es\<close>, the stack \<open>rev es\<close>.
\<close>

theorem cancellation_cuts_sequential_walk:
  "(fires_during ctx es k \<longrightarrow>
      walk_cut ctx es k (Fifo_CloseContext pick ctx (Fifo_of es)))
   \<and> (fires_during ctx (rev es) k \<longrightarrow>
      walk_cut ctx (rev es) k (Lifo_CloseContext pick ctx (Lifo_of es)))"
  by (simp add: Fifo_CloseContext_def queue_Fifo_of Lifo_CloseContext_as_Fifo stack_Lifo_of
      Fifo_loop_walk_cut)

theorem cancellation_cuts_sequential_walk_witness:
  "fires_during deadline25 [resB, resA, resC] (Suc 0)
   \<and> closed (Fifo_CloseContext always_next deadline25 (Fifo_of [resB, resA, resC])) = [resB, resA]
   \<and> elapsed (Fifo_CloseContext always_next deadline25 (Fifo_of [resB, resA, resC])) = 25
   \<and> constituents (result (Fifo_CloseContext always_next deadline25 (Fifo_of [resB, resA, resC])))
       = [errorString ''closer error'', errorString ''context deadline exceeded'']
   \<and> fires_during deadline25 (rev [resC, resA, resB]) (Suc 0)
   \<and> closed (Lifo_CloseContext always_next deadline25 (Lifo_of [resC, resA, resB])) = [resB, resA]
   \<and> elapsed (Lifo_CloseContext always_next deadline25 (Lifo_of [resC, resA, resB])) = 25
   \<and> constituents (result (Lifo_CloseContext always_next deadline25 (Lifo_of [resC, resA, resB])))
       = [errorString ''closer error'', errorString ''context deadline exceeded'']"
proof -
  have f: "fires_during deadline25 [resB, resA, resC] (Suc 0)"
    by (simp add: fires_during_def deadline25_def resA_def resB_def resC_def)
  have l: "fires_during deadline25 (rev [resC, resA, resB]) (Suc 0)"
    by (simp add: fires_during_def deadline25_def resA_def resB_def resC_def)
  from f cancellation_cuts_sequential_walk[of deadline25 "[resB, resA, resC]" "Suc 0" always_next]
  have 1: "walk_cut deadline25 [resB, resA, resC] (Suc 0)
             (Fifo_CloseContext always_next deadline25 (Fifo_of [resB, resA, resC]))"
    by blast
  from l cancellation_cuts_sequential_walk[of deadline25 "[resC, resA, resB]" "Suc 0" always_next]
  have 2: "walk_cut deadline25 (rev [resC, resA, resB]) (Suc 0)
             (Lifo_CloseContext always_next deadline25 (Lifo_of [resC, resA, resB]))"
    by blast
  have c: "failures [resB] @ [ctx_Err deadline25]
           = [errorString ''closer error'', errorString ''context deadline exceeded'']"
    by (simp add: failures_def resB_def ctx_Err_def deadline25_def)
  have d: "fires_after deadline25 = Some 25" by (simp add: deadline25_def)
  from 1 2 f l show ?thesis
    unfolding walk_cut_def
    by (simp add: c d constituents_Append constituents_collect Errors_ctx_Err)
qed

text \<open>
  C9. A queue or stack with at least one entry, closed under a signal that has fired
  before the call, still dispatches the close of the first entry of its walk (the
  front of the queue, the top of the stack): dispatch comes before the select. If that
  entry takes time, nothing else is dispatched and the result is the signal's terminal
  error. More generally the result contains the terminal error as soon as some select
  takes the cancellation case, which happens at the first entry that takes time or at
  the first tie the scheduler resolves that way.
\<close>

theorem fired_signal_still_dispatches_first:
  assumes "fires_after ctx = Some 0" and "es \<noteq> []"
  shows "closed (Fifo_CloseContext pick ctx (Fifo_of es)) \<noteq> []
       \<and> hd (closed (Fifo_CloseContext pick ctx (Fifo_of es))) = hd es
       \<and> (0 < delay (hd es) \<longrightarrow>
            closed (Fifo_CloseContext pick ctx (Fifo_of es)) = [hd es]
            \<and> result (Fifo_CloseContext pick ctx (Fifo_of es)) = Some (ctx_Err ctx))
       \<and> ((\<exists>j < length es. 0 < delay (es ! j) \<or> pick j = ctxDone) \<longrightarrow>
            ctx_Err ctx \<in> set (constituents (result (Fifo_CloseContext pick ctx (Fifo_of es)))))
       \<and> closed (Lifo_CloseContext pick ctx (Lifo_of es)) \<noteq> []
       \<and> hd (closed (Lifo_CloseContext pick ctx (Lifo_of es))) = last es
       \<and> (0 < delay (last es) \<longrightarrow>
            closed (Lifo_CloseContext pick ctx (Lifo_of es)) = [last es]
            \<and> result (Lifo_CloseContext pick ctx (Lifo_of es)) = Some (ctx_Err ctx))
       \<and> ((\<exists>i < length es. 0 < delay (es ! i) \<or> pick i = ctxDone) \<longrightarrow>
            ctx_Err ctx \<in> set (constituents (result (Lifo_CloseContext pick ctx (Lifo_of es)))))"
proof -
  let ?n = "length es"
  let ?p = "\<lambda>j. pick (?n - 1 - j)"
  have first: "Fifo_loop q ctx 0 xs start = \<lparr>result = Some (ctx_Err ctx), closed = [hd xs], elapsed = 0\<rparr>"
    if "xs \<noteq> []" "0 < delay (hd xs)" for q xs
  proof -
    from that obtain c cs where xs: "xs = c # cs" by (cases xs) auto
    with that assms(1) show ?thesis
      using Fifo_loop_fires[of ctx 0 start c q 0 cs]
      by (simp add: start_def multierr_Append_def)
  qed
  have rev_ne: "rev es \<noteq> []" and hd_rev: "hd (rev es) = last es"
    using assms(2) by (simp_all add: hd_rev)
  have lifo_ex: "\<exists>j < length (rev es). 0 < delay (rev es ! j) \<or> ?p (0 + j) = ctxDone"
    if "\<exists>i < length es. 0 < delay (es ! i) \<or> pick i = ctxDone"
  proof -
    from that obtain i where i: "i < ?n" "0 < delay (es ! i) \<or> pick i = ctxDone" by blast
    then have "?n - 1 - i < length (rev es)" and "rev es ! (?n - 1 - i) = es ! i"
      and "?n - 1 - (?n - 1 - i) = i"
      by (simp_all add: rev_nth)
    with i show ?thesis by (intro exI[of _ "?n - 1 - i"]) simp
  qed
  show ?thesis
    unfolding Fifo_CloseContext_def queue_Fifo_of Lifo_CloseContext_as_Fifo stack_Lifo_of
    using Fifo_loop_dispatches_first[OF assms(2), of pick ctx 0]
      Fifo_loop_dispatches_first[OF rev_ne, of ?p ctx 0]
      Fifo_loop_fired_reports[OF assms(1), of es pick 0 start]
      Fifo_loop_fired_reports[OF assms(1) lifo_ex, of start]
      first[OF assms(2), of pick] first[OF rev_ne, of ?p]
    by (simp add: hd_rev)
qed

theorem fired_signal_still_dispatches_first_witness:
  "fires_after fired = Some 0 \<and> [resA, resB] \<noteq> []
   \<and> closed (Fifo_CloseContext always_next fired (Fifo_of [resA, resB])) = [resA]
   \<and> result (Fifo_CloseContext always_next fired (Fifo_of [resA, resB]))
       = Some (errorString ''context canceled'')
   \<and> closed (Lifo_CloseContext always_next fired (Lifo_of [resA, resB])) = [resB]
   \<and> result (Lifo_CloseContext always_next fired (Lifo_of [resA, resB]))
       = Some (errorString ''context canceled'')"
proof -
  have a: "fires_after fired = Some 0" by (simp add: fired_def)
  have b: "[resA, resB] \<noteq> []" by simp
  have c: "0 < delay (hd [resA, resB])" "0 < delay (last [resA, resB])"
    by (simp_all add: resA_def resB_def)
  have e: "ctx_Err fired = errorString ''context canceled''"
    by (simp add: ctx_Err_def fired_def)
  from fired_signal_still_dispatches_first[OF a b, of always_next] c a b show ?thesis
    by (simp add: e)
qed

text \<open>
  C9, as stated, fails: when the dispatched close has already returned as the select
  is reached, both cases are ready, and the select may take the completion case every
  time. The walk then runs to its end and the result does not contain the signal's
  terminal error.
\<close>

theorem fired_signal_may_go_unreported:
  "fires_after fired = Some 0
   \<and> closed (Fifo_CloseContext always_next fired (Fifo_of [resNop])) = [resNop]
   \<and> result (Fifo_CloseContext always_next fired (Fifo_of [resNop])) = None"
  by (simp add: Fifo_CloseContext_def queue_Fifo_of fired_def resNop_def always_next_def
      start_def select_def callClose_def)

section \<open>The group under cancellation\<close>

text \<open>
  C2. For the group: if the signal fires before all units have returned, the call
  still returns, and only once every unit's wait leg has resolved (it returns at the
  moment the signal fires, and no leg resolves later than that); the close of every
  entry has been dispatched; the result contains only failures of units recorded
  before the legs resolved: every constituent is the failure of a unit that had
  returned by the moment the signal fired, and the failure of every unit that returned
  before that moment is among the constituents. The strategy never adds the signal's
  terminal error: the result does not depend on which error the signal reports, and
  that error is a constituent only if an entry that had returned by then itself failed
  with it.
\<close>

theorem group_cancellation_not_appended:
  assumes "fires_after ctx = Some d" and "\<exists>c \<in> set es. d < delay c"
  shows "elapsed (Group_CloseContext pick rank ctx (Group_of es)) = d
       \<and> (\<forall>i < length es.
             leg pick ctx (i, es ! i) \<le> elapsed (Group_CloseContext pick rank ctx (Group_of es)))
       \<and> mset (closed (Group_CloseContext pick rank ctx (Group_of es))) = mset es
       \<and> mset (constituents (result (Group_CloseContext pick rank ctx (Group_of es))))
           \<subseteq># mset (failures (filter (\<lambda>c. delay c \<le> d) es))
       \<and> mset (failures (filter (\<lambda>c. delay c < d) es))
           \<subseteq># mset (constituents (result (Group_CloseContext pick rank ctx (Group_of es))))
       \<and> result (Group_CloseContext pick rank (ctx\<lparr>cause := k\<rparr>) (Group_of es))
           = result (Group_CloseContext pick rank ctx (Group_of es))
       \<and> (ctx_Err ctx \<in> set (constituents (result (Group_CloseContext pick rank ctx (Group_of es))))
            \<longrightarrow> (\<exists>c \<in> set es. delay c \<le> d \<and> ctx_Err ctx \<in> set (constituents (err c))))"
proof -
  let ?out = "Group_CloseContext pick rank ctx (Group_of es)"
  have e: "elapsed ?out = d"
    using assms by (simp add: Group_elapsed_fired closers_Group_of)
  have legs: "\<forall>i < length es. leg pick ctx (i, es ! i) \<le> elapsed ?out"
    using Group_waits_for_legs[of _ "Group_of es" pick ctx rank] by (simp add: closers_Group_of)
  have c: "mset (closed ?out) = mset es"
    by (simp add: Group_closed closers_Group_of)
  have u: "mset (constituents (result ?out)) \<subseteq># mset (failures (filter (\<lambda>c. delay c \<le> d) es))"
    using Group_result_upper[OF assms(1), of pick rank "Group_of es"] by (simp add: closers_Group_of)
  have l: "mset (failures (filter (\<lambda>c. delay c < d) es)) \<subseteq># mset (constituents (result ?out))"
    using Group_result_lower[OF assms(1), of "Group_of es" pick rank] by (simp add: closers_Group_of)
  have k: "result (Group_CloseContext pick rank (ctx\<lparr>cause := k\<rparr>) (Group_of es)) = result ?out"
    by (rule Group_result_cause)
  have "set (constituents (result ?out)) \<subseteq> set (failures (filter (\<lambda>c. delay c \<le> d) es))"
    using set_mset_mono[OF u] by simp
  then have t: "ctx_Err ctx \<in> set (constituents (result ?out))
      \<longrightarrow> (\<exists>c \<in> set es. delay c \<le> d \<and> ctx_Err ctx \<in> set (constituents (err c)))"
    by (auto simp: set_failures)
  from e legs c u l k t show ?thesis by blast
qed

theorem group_cancellation_not_appended_witness:
  "fires_after deadline40 = Some 40 \<and> (\<exists>c \<in> set [resA, resB, resC]. 40 < delay c)
   \<and> elapsed (Group_CloseContext always_done by_index deadline40 (Group_of [resA, resB, resC])) = 40
   \<and> mset (closed (Group_CloseContext always_done by_index deadline40 (Group_of [resA, resB, resC])))
       = {#resA, resB, resC#}
   \<and> mset (constituents (result (Group_CloseContext always_done by_index deadline40
         (Group_of [resA, resB, resC])))) = {#errorString ''closer error''#}
   \<and> ctx_Err deadline40 \<notin> set (constituents (result (Group_CloseContext always_done by_index
         deadline40 (Group_of [resA, resB, resC]))))"
proof -
  let ?out = "Group_CloseContext always_done by_index deadline40 (Group_of [resA, resB, resC])"
  have a: "fires_after deadline40 = Some 40" by (simp add: deadline40_def)
  have b: "\<exists>c \<in> set [resA, resB, resC]. 40 < delay c" by (simp add: resC_def)
  have u: "failures (filter (\<lambda>c. delay c \<le> 40) [resA, resB, resC]) = [errorString ''closer error'']"
    by (simp add: failures_def resA_def resB_def resC_def)
  have l: "failures (filter (\<lambda>c. delay c < 40) [resA, resB, resC]) = [errorString ''closer error'']"
    by (simp add: failures_def resA_def resB_def resC_def)
  have n: "\<not> (\<exists>c \<in> set [resA, resB, resC]. delay c \<le> 40 \<and> ctx_Err deadline40 \<in> set (constituents (err c)))"
    by (simp add: resA_def resB_def resC_def ctx_Err_def deadline40_def)
  note t = group_cancellation_not_appended[OF a b, of always_done by_index]
  from t have "mset (constituents (result ?out)) \<subseteq># mset [errorString ''closer error'']"
    and "mset [errorString ''closer error''] \<subseteq># mset (constituents (result ?out))"
    by (simp_all only: u l)
  then have "mset (constituents (result ?out)) = mset [errorString ''closer error'']"
    by (rule subset_mset.antisym)
  then have m: "mset (constituents (result ?out)) = {#errorString ''closer error''#}"
    by simp
  from t have e: "elapsed ?out = 40" and "mset (closed ?out) = mset [resA, resB, resC]"
    by blast+
  then have c: "mset (closed ?out) = {#resA, resB, resC#}" by simp
  from t n have "ctx_Err deadline40 \<notin> set (constituents (result ?out))"
    by blast
  with a b m e c show ?thesis by blast
qed

text \<open>
  C2, as stated, fails: the terminal error can be a constituent of the result,
  although the strategy does not add it. A resource's \<open>Close()\<close> may itself return the
  signal's error (a server shut down under the same deadline does). Here \<open>resD\<close> has
  failed with \<open>context.DeadlineExceeded\<close> when the deadline fires during \<open>resC\<close>; the
  group returns that failure, which is the signal's terminal error.
\<close>

theorem group_entry_may_fail_with_terminal_error:
  "fires_after deadline40 = Some 40 \<and> 40 < delay resC
   \<and> result (Group_CloseContext always_next by_index deadline40 (Group_of [resD, resC]))
       = Some (ctx_Err deadline40)
   \<and> constituents (result (Group_CloseContext always_next by_index deadline40 (Group_of [resD, resC])))
       = [ctx_Err deadline40]"
proof -
  have g: "closers (Group_of [resD, resC]) = [resD, resC]"
    by (rule closers_Group_of)
  have s: "enumerate 0 [resD, resC] = [(0, resD), (Suc 0, resC)]"
    by simp
  have f: "resolves always_next deadline40 (0, resD) = nextClosed"
    "resolves always_next deadline40 (Suc 0, resC) = ctxDone"
    by (simp_all add: resolves_def select_def deadline40_def resD_def resC_def)
  have e: "err resD = Some (ctx_Err deadline40)"
    by (simp add: resD_def ctx_Err_def deadline40_def)
  have r: "result (Group_CloseContext always_next by_index deadline40 (Group_of [resD, resC]))
      = Some (ctx_Err deadline40)"
    unfolding Group_CloseContext_def g Let_def s
    by (simp add: f e List.map_filter_def multierr_Combine_def fromSlice_def)
  have "fires_after deadline40 = Some 40" "40 < delay resC"
    by (simp_all add: deadline40_def resC_def)
  with r show ?thesis
    by (simp add: Errors_ctx_Err)
qed

section \<open>Completeness of the aggregate\<close>

text \<open>
  C5. For the queue, the stack and the group: when no cancellation fires during the
  call, the result is nil if and only if every entry's close succeeded, and the text of
  every entry's failure occurs in the text of the result. A strategy without entries
  returns nil, whatever the signal.
\<close>

theorem aggregate_complete_without_cancellation:
  "(quiet ctx (sum_list (map delay es)) \<longrightarrow>
       complete es (result (Fifo_CloseContext pick ctx (Fifo_of es)))
     \<and> complete es (result (Lifo_CloseContext pick ctx (Lifo_of es))))
   \<and> ((\<forall>c \<in> set es. quiet ctx (delay c)) \<longrightarrow>
       complete es (result (Group_CloseContext pick rank ctx (Group_of es))))
   \<and> result (Fifo_CloseContext pick ctx Fifo_new) = None
   \<and> result (Lifo_CloseContext pick ctx Lifo_new) = None
   \<and> result (Group_CloseContext pick rank ctx Group_new) = None"
proof (intro conjI impI)
  assume q: "quiet ctx (sum_list (map delay es))"
  then show "complete es (result (Fifo_CloseContext pick ctx (Fifo_of es)))"
    by (simp add: Fifo_CloseContext_def queue_Fifo_of Fifo_loop_quiet complete_collect)
  from q have "quiet ctx (sum_list (map delay (rev es)))"
    by (simp add: rev_map[symmetric])
  then show "complete es (result (Lifo_CloseContext pick ctx (Lifo_of es)))"
    by (simp add: Lifo_CloseContext_as_Fifo stack_Lifo_of Fifo_loop_quiet complete_collect)
next
  assume "\<forall>c \<in> set es. quiet ctx (delay c)"
  then show "complete es (result (Group_CloseContext pick rank ctx (Group_of es)))"
    using Group_complete[of "Group_of es" ctx pick rank] by (simp add: closers_Group_of)
next
  show "result (Fifo_CloseContext pick ctx Fifo_new) = None"
    by (simp add: Fifo_CloseContext_def Fifo_new_def start_def)
  show "result (Lifo_CloseContext pick ctx Lifo_new) = None"
    by (simp add: Lifo_CloseContext_def Lifo_new_def start_def)
  show "result (Group_CloseContext pick rank ctx Group_new) = None"
    by (simp add: Group_CloseContext_def Group_new_def multierr_Combine_def fromSlice_def
        List.map_filter_def)
qed

theorem aggregate_complete_without_cancellation_witness:
  "quiet Background (sum_list (map delay [resA, resB, resC]))
   \<and> (\<exists>x. result (Fifo_CloseContext always_next Background (Fifo_of [resA, resB, resC])) = Some x
          \<and> sublist ''closer error'' (Error x) \<and> sublist ''second error'' (Error x))
   \<and> (\<exists>x. result (Lifo_CloseContext always_next Background (Lifo_of [resA, resB, resC])) = Some x
          \<and> sublist ''closer error'' (Error x) \<and> sublist ''second error'' (Error x))
   \<and> (\<exists>x. result (Group_CloseContext always_next by_index Background (Group_of [resA, resB, resC])) = Some x
          \<and> sublist ''closer error'' (Error x) \<and> sublist ''second error'' (Error x))
   \<and> result (Fifo_CloseContext always_next Background (Fifo_of [resA, resNop])) = None"
proof -
  have q: "quiet Background t" for t by (simp add: quiet_def Background_def)
  have b: "err resB = Some (errorString ''closer error'')" "err resC = Some (errorString ''second error'')"
    "err resA = None" "err resNop = None"
    by (simp_all add: resA_def resB_def resC_def resNop_def)
  note t = aggregate_complete_without_cancellation[of Background _ always_next by_index]
  from t[of "[resA, resB, resC]"] q
  have 1: "complete [resA, resB, resC] (result (Fifo_CloseContext always_next Background (Fifo_of [resA, resB, resC])))"
    and 2: "complete [resA, resB, resC] (result (Lifo_CloseContext always_next Background (Lifo_of [resA, resB, resC])))"
    and 3: "complete [resA, resB, resC] (result (Group_CloseContext always_next by_index Background (Group_of [resA, resB, resC])))"
    by blast+
  from t[of "[resA, resNop]"] q
  have 4: "complete [resA, resNop] (result (Fifo_CloseContext always_next Background (Fifo_of [resA, resNop])))"
    by blast
  have ex: "\<exists>x. r = Some x \<and> sublist ''closer error'' (Error x) \<and> sublist ''second error'' (Error x)"
    if "complete [resA, resB, resC] r" for r
    using that b unfolding complete_def by (cases r) auto
  from 4 b have "result (Fifo_CloseContext always_next Background (Fifo_of [resA, resNop])) = None"
    unfolding complete_def by simp
  with ex[OF 1] ex[OF 2] ex[OF 3] q show ?thesis by blast
qed

section \<open>The default registry closes once\<close>

text \<open>
  C6. For the default registry holding the strategy \<open>cl\<close> and the registered resources
  \<open>es\<close>, across any sequence of calls to \<open>Close\<close> and \<open>CloseContext\<close>: the strategy's
  close runs at most once, and exactly once when there is a call; the close of every
  registered resource is dispatched at most once in total. It is dispatched exactly
  once in total when there is a call and the first call reaches every entry: the
  strategy is a group, or holds at most one resource, or the first call's signal is
  still silent at the moment its walk dispatches the close of its last entry.
\<close>

theorem default_registry_closes_at_most_once:
  "strategy_closes (snd (run calls (registry cl es))) \<le> 1
   \<and> mset (resource_closes (snd (run calls (registry cl es)))) \<subseteq># mset (registered cl @ es)
   \<and> (calls \<noteq> [] \<longrightarrow> strategy_closes (snd (run calls (registry cl es))) = 1)
   \<and> (calls \<noteq> [] \<and> undisturbed (call_signal (hd calls)) (pkgClosure (registry cl es)) \<longrightarrow>
        mset (resource_closes (snd (run calls (registry cl es)))) = mset (registered cl @ es))"
proof (cases calls)
  case Nil
  then show ?thesis by (simp add: registry_fields)
next
  case (Cons c cs)
  let ?p = "registry cl es"
  let ?out = "closure_CloseContext (call_sched c) (call_signal c) (pkgClosure ?p)"
  have fresh: "\<not> once ?p" by (simp add: registry_fields)
  have s: "snd (run calls ?p) =
      ?p\<lparr>once := True, strategy_closes := Suc (strategy_closes ?p),
         resource_closes := resource_closes ?p @ closed ?out\<rparr>"
    unfolding Cons run_Cons perform_fresh[OF fresh] by simp
  have most: "mset (closed ?out) \<subseteq># mset (registered cl @ es)"
    using closed_at_most_registered[of "call_sched c" "call_signal c" "pkgClosure ?p"]
    by (simp add: registered_registry)
  have all: "mset (closed ?out) = mset (registered cl @ es)"
    if "undisturbed (call_signal c) (pkgClosure ?p)"
    using closed_all_registered[OF that, of "call_sched c"]
    by (simp add: registered_registry)
  from most all show ?thesis
    unfolding s by (simp add: registry_fields Cons)
qed

theorem default_registry_closes_at_most_once_witness:
  "[CallCloseContext sched0 deadline40, CallClose sched0] \<noteq> []
   \<and> undisturbed (call_signal (hd [CallCloseContext sched0 deadline40, CallClose sched0]))
       (pkgClosure (registry (FifoC Fifo_new) [resA, resB, resC]))
   \<and> \<not> quiet deadline40 (sum_list (map delay [resA, resB, resC]))
   \<and> strategy_closes (snd (run [CallCloseContext sched0 deadline40, CallClose sched0]
         (registry (FifoC Fifo_new) [resA, resB, resC]))) = 1
   \<and> mset (resource_closes (snd (run [CallCloseContext sched0 deadline40, CallClose sched0]
         (registry (FifoC Fifo_new) [resA, resB, resC])))) = {#resA, resB, resC#}"
proof -
  have f: "pkgClosure (registry (FifoC Fifo_new) [resA, resB, resC])
      = FifoC \<lparr>queue = [resA, resB, resC]\<rparr>"
    by (simp add: registry_def SetPackageClosure_def init_def Append_def Fifo_Append_def Fifo_new_def)
  have a: "[CallCloseContext sched0 deadline40, CallClose sched0] \<noteq> []" by simp
  have b: "undisturbed (call_signal (hd [CallCloseContext sched0 deadline40, CallClose sched0]))
       (pkgClosure (registry (FifoC Fifo_new) [resA, resB, resC]))"
    unfolding f by (simp add: quiet_def deadline40_def resA_def resB_def)
  have n: "\<not> quiet deadline40 (sum_list (map delay [resA, resB, resC]))"
    by (simp add: quiet_def deadline40_def resA_def resB_def resC_def)
  from default_registry_closes_at_most_once[of "[CallCloseContext sched0 deadline40, CallClose sched0]"
      "FifoC Fifo_new" "[resA, resB, resC]"] a b
  have "strategy_closes (snd (run [CallCloseContext sched0 deadline40, CallClose sched0]
         (registry (FifoC Fifo_new) [resA, resB, resC]))) = 1"
    and "mset (resource_closes (snd (run [CallCloseContext sched0 deadline40, CallClose sched0]
         (registry (FifoC Fifo_new) [resA, resB, resC]))))
        = mset (registered (FifoC Fifo_new) @ [resA, resB, resC])"
    by blast+
  with a b n show ?thesis by (simp add: Fifo_new_def)
qed

text \<open>
  C6, as stated, fails: when the first call is cut short by its signal, the resources
  the walk had not reached are never closed, since every later call is a no-op. Here
  the stack's walk waits on \<open>resC\<close> when the deadline fires; \<open>resA\<close> and \<open>resB\<close> are
  registered and their close is never dispatched.
\<close>

theorem default_registry_may_skip_resources:
  "registered (pkgClosure (registry (LifoC Lifo_new) [resA, resB, resC])) = [resA, resB, resC]
   \<and> resource_closes (snd (run [CallCloseContext sched0 deadline40, CallClose sched0]
        (registry (LifoC Lifo_new) [resA, resB, resC]))) = [resC]
   \<and> count_list (resource_closes (snd (run [CallCloseContext sched0 deadline40, CallClose sched0]
        (registry (LifoC Lifo_new) [resA, resB, resC])))) resA = 0"
proof -
  have r: "registered (pkgClosure (registry (LifoC Lifo_new) [resA, resB, resC])) = [resA, resB, resC]"
    by (simp add: registered_registry Lifo_new_def)
  have l: "pkgClosure (registry (LifoC Lifo_new) [resA, resB, resC])
      = LifoC \<lparr>stack = [resA, resB, resC]\<rparr>"
    by (simp add: registry_def SetPackageClosure_def init_def Append_def Lifo_Append_def Lifo_new_def)
  have "closed (Lifo_CloseContext (picks sched0) deadline40 \<lparr>stack = [resA, resB, resC]\<rparr>) = [resC]"
    by (simp add: Lifo_CloseContext_as_Fifo deadline40_def resC_def select_def start_def)
  then have "resource_closes (snd (run [CallCloseContext sched0 deadline40, CallClose sched0]
        (registry (LifoC Lifo_new) [resA, resB, resC]))) = [resC]"
    unfolding run_Cons by (simp add: CloseContext_def registry_fields l Let_def)
  with r show ?thesis by (simp add: resA_def resC_def)
qed

text \<open>
  C7. Every call to the default registry's close after the first is a no-op that
  returns nil, whatever the first call returned: the returned values of a sequence of
  calls are the first call's value followed by nil only, and the state after the
  sequence is the state after the first call. A late caller's value therefore equals
  the first caller's only when the first call returned nil.
\<close>

theorem late_default_close_returns_nil:
  "fst (run (c # cs) p) = fst (perform c p) # replicate (length cs) None
   \<and> snd (run (c # cs) p) = snd (perform c p)"
  by (simp add: run_Cons del: run.simps)

theorem late_default_close_returns_nil_witness:
  "fst (run [CallClose sched0, CallCloseContext sched0 fired, CallClose sched0]
      (registry (FifoC Fifo_new) [resB])) = [Some (errorString ''closer error''), None, None]"
proof -
  have f: "pkgClosure (registry (FifoC Fifo_new) [resB]) = FifoC \<lparr>queue = [resB]\<rparr>"
    by (simp add: registry_def SetPackageClosure_def init_def Append_def Fifo_Append_def Fifo_new_def)
  have "result (Fifo_CloseContext (picks sched0) Background \<lparr>queue = [resB]\<rparr>)
      = Some (errorString ''closer error'')"
    by (simp add: Fifo_CloseContext_def Background_def resB_def select_def start_def callClose_def
        multierr_Append_def)
  then have "fst (perform (CallClose sched0) (registry (FifoC Fifo_new) [resB]))
      = Some (errorString ''closer error'')"
    by (simp add: Close_def CloseContext_def registry_fields f Let_def)
  with late_default_close_returns_nil[of "CallClose sched0"
      "[CallCloseContext sched0 fired, CallClose sched0]" "registry (FifoC Fifo_new) [resB]"]
  show ?thesis by simp
qed

text \<open>
  C7, as stated, fails: the guard keeps no result. The first call returns the
  resource's failure, the second returns nil.
\<close>

theorem late_default_close_differs_from_first:
  "fst (run [CallClose sched0, CallClose sched0] (registry (FifoC Fifo_new) [resB]))
     = [Some (errorString ''closer error''), None]"
proof -
  have f: "pkgClosure (registry (FifoC Fifo_new) [resB]) = FifoC \<lparr>queue = [resB]\<rparr>"
    by (simp add: registry_def SetPackageClosure_def init_def Append_def Fifo_Append_def Fifo_new_def)
  have "result (Fifo_CloseContext (picks sched0) Background \<lparr>queue = [resB]\<rparr>)
      = Some (errorString ''closer error'')"
    by (simp add: Fifo_CloseContext_def Background_def resB_def select_def start_def callClose_def
        multierr_Append_def)
  then show ?thesis
    unfolding run_Cons by (simp add: Close_def CloseContext_def registry_fields f Let_def)
qed

section \<open>The context association\<close>

text \<open>
  C8. Looking up after attaching the instance \<open>c\<close> returns \<open>c\<close> and found; so does a
  lookup from any context derived from the attached one, provided no context in between
  holds a later association (a later attach shadows the earlier one); and a lookup from
  a context with no association anywhere on its chain returns not found.
\<close>

theorem attach_then_lookup:
  "(ClosureToContext h ctx (Some c) = Some (h', a) \<longrightarrow>
       ClosureFromContext h' a = Some (Some c, True)
     \<and> (\<forall>ns d. unshadowed (h' @ ns) d a \<longrightarrow>
           descends (h' @ ns) d a \<and> ClosureFromContext (h' @ ns) d = Some (Some c, True)))
   \<and> (b < length h \<and> \<not> associated h b \<longrightarrow> ClosureFromContext h b = Some (None, False))"
proof (intro conjI impI allI)
  assume "ClosureToContext h ctx (Some c) = Some (h', a)"
  then have h': "h' = h @ [valueCtx ctx ctxKey (closureValue c)]" and a: "a = length h"
    by (simp_all add: ClosureToContext_Some)
  have v: "Value (h' @ ns) a ctxKey = closureValue c" for ns
    using Value_attached[of h ctx "closureValue c" ns] by (simp add: h' a)
  show "ClosureFromContext h' a = Some (Some c, True)"
    using v[of "[]"] by (simp add: ClosureFromContext_def h' a)
  fix ns d
  assume u: "unshadowed (h' @ ns) d a"
  then show "descends (h' @ ns) d a" by (rule unshadowed_descends)
  have "a < length (h' @ ns)" by (simp add: h' a)
  with u have "d < length (h' @ ns)" by (rule unshadowed_valid)
  moreover have "Value (h' @ ns) d ctxKey = closureValue c"
    using Value_unshadowed[OF u] v by simp
  ultimately show "ClosureFromContext (h' @ ns) d = Some (Some c, True)"
    by (simp add: ClosureFromContext_def)
next
  assume "b < length h \<and> \<not> associated h b"
  then show "ClosureFromContext h b = Some (None, False)"
    by (simp add: ClosureFromContext_def Value_not_associated)
qed

theorem attach_then_lookup_witness:
  "ClosureToContext [emptyCtx] 0 (Some 7) = Some (heap1, 1)
   \<and> ClosureFromContext heap1 1 = Some (Some 7, True)
   \<and> WithCancel heap1 1 = Some (heap1 @ [cancelCtx 1], 2)
   \<and> WithValue (heap1 @ [cancelCtx 1]) 2 (otherKey 5) (otherValue 9) = Some (heap3, 3)
   \<and> unshadowed heap3 3 1
   \<and> descends heap3 3 1
   \<and> ClosureFromContext heap3 3 = Some (Some 7, True)
   \<and> 0 < length [emptyCtx] \<and> \<not> associated [emptyCtx] 0
   \<and> ClosureFromContext [emptyCtx] 0 = Some (None, False)"
proof -
  have a: "ClosureToContext [emptyCtx] 0 (Some 7) = Some (heap1, 1)"
    by (simp add: ClosureToContext_def WithValue_def heap1_def)
  have h3: "heap3 = heap1 @ [cancelCtx 1, valueCtx 2 (otherKey 5) (otherValue 9)]"
    by (simp add: heap1_def heap3_def)
  have "unshadowed heap3 2 1"
    by (subst unshadowed.simps, simp add: heap3_def, subst unshadowed.simps, simp)
  then have u: "unshadowed (heap1 @ [cancelCtx 1, valueCtx 2 (otherKey 5) (otherValue 9)]) 3 1"
    unfolding h3[symmetric] by (subst unshadowed.simps) (simp add: heap3_def)
  have n: "0 < length [emptyCtx] \<and> \<not> associated [emptyCtx] 0"
    by (simp add: associated.simps)
  have w: "WithCancel heap1 1 = Some (heap1 @ [cancelCtx 1], 2)"
    "WithValue (heap1 @ [cancelCtx 1]) 2 (otherKey 5) (otherValue 9)
       = Some (heap1 @ [cancelCtx 1, valueCtx 2 (otherKey 5) (otherValue 9)], 3)"
    by (simp_all add: WithCancel_def WithValue_def heap1_def)
  from attach_then_lookup[of "[emptyCtx]" 0 7 heap1 1 0] a u n w show ?thesis
    unfolding h3 by blast
qed

text \<open>
  C8, as stated, fails for a derived context that attaches another instance: the
  context at address 2 is derived from the context at address 1, to which instance 7
  was attached, and looking up from it returns instance 8.
\<close>

theorem later_attach_shadows:
  "ClosureToContext [emptyCtx] 0 (Some 7) = Some (heap1, 1)
   \<and> ClosureToContext heap1 1 (Some 8) = Some (heap2, 2)
   \<and> descends heap2 2 1
   \<and> ClosureFromContext heap2 2 = Some (Some 8, True)"
proof -
  have "descends heap2 2 1"
    by (subst descends.simps, simp add: heap2_def, subst descends.simps, simp)
  moreover have "Value heap2 2 ctxKey = closureValue 8"
    by (subst Value.simps) (simp add: heap2_def)
  ultimately show ?thesis
    by (simp add: ClosureToContext_def WithValue_def ClosureFromContext_def heap1_def heap2_def)
qed

text \<open>
  C10. Attaching never changes the context it is given. For an existing context
  \<open>ctx\<close> the call returns a context at a new address, derived from \<open>ctx\<close>; every
  context that existed before is unchanged, and a lookup from any of them, \<open>ctx\<close>
  included, returns what it returned before (not found, if \<open>ctx\<close> had no association).
\<close>

theorem attach_leaves_context_unchanged:
  "ctx < length h \<Longrightarrow>
   \<exists>h' a. ClosureToContext h ctx cl = Some (h', a)
     \<and> length h \<le> a \<and> a < length h' \<and> a \<noteq> ctx
     \<and> descends h' a ctx
     \<and> take (length h) h' = h
     \<and> (\<forall>b < length h. ClosureFromContext h' b = ClosureFromContext h b)
     \<and> ClosureFromContext h' ctx = ClosureFromContext h ctx
     \<and> (\<not> associated h ctx \<longrightarrow> ClosureFromContext h' ctx = Some (None, False))"
proof -
  assume c: "ctx < length h"
  let ?v = "case cl of None \<Rightarrow> nilValue | Some c \<Rightarrow> closureValue c"
  let ?h = "h @ [valueCtx ctx ctxKey ?v]"
  have 1: "ClosureToContext h ctx cl = Some (?h, length h)"
    using c by (simp add: ClosureToContext_Some)
  have "descends ?h ctx ctx" by (subst descends.simps) simp
  then have 2: "descends ?h (length h) ctx"
    using c by (subst descends.simps) simp
  have 3: "\<forall>b < length h. ClosureFromContext ?h b = ClosureFromContext h b"
    by (simp add: ClosureFromContext_frame)
  have 4: "\<not> associated h ctx \<longrightarrow> ClosureFromContext ?h ctx = Some (None, False)"
    using c by (simp add: ClosureFromContext_def Value_frame Value_not_associated)
  from 1 2 3 4 c show ?thesis
    by (intro exI[of _ ?h] exI[of _ "length h"]) simp
qed

theorem attach_leaves_context_unchanged_witness:
  "(0::nat) < length [emptyCtx]
   \<and> ClosureToContext [emptyCtx] 0 (Some 7) = Some (heap1, 1)
   \<and> ClosureFromContext heap1 0 = ClosureFromContext [emptyCtx] 0
   \<and> ClosureFromContext heap1 0 = Some (None, False)"
proof -
  have a: "ClosureToContext [emptyCtx] 0 (Some 7) = Some (heap1, 1)"
    by (simp add: ClosureToContext_def WithValue_def heap1_def)
  have n: "\<not> associated [emptyCtx] 0" by (simp add: associated.simps)
  from attach_leaves_context_unchanged[of 0 "[emptyCtx]" "Some 7"] a n
  have "ClosureFromContext heap1 0 = ClosureFromContext [emptyCtx] 0
      \<and> ClosureFromContext heap1 0 = Some (None, False)"
    by auto
  moreover have "(0::nat) < length [emptyCtx]" by simp
  ultimately show ?thesis using a by blast
qed

end
